theory Spec2Isabelle
  imports Main "HOL-Library.Log_Nat" "HOL-Library.AList"
begin

section \<open>The backing store\<close>

text \<open>
  The compliance watchdog (\<^verbatim>\<open>checkSlaCompliance\<close>) talks to a document database through
  queries and write batches. The database is modelled as a record of its collections; every
  request the program sends is appended to a trace, and a request may fail: the backend
  decides, per request number, whether the request is rejected and at which server time it is
  processed. Instants are milliseconds since the epoch, as \<^verbatim>\<open>Date.getTime()\<close> and
  \<^verbatim>\<open>Timestamp.toMillis()\<close> give them.

  A collection is the list of its documents; the checkpoints carry their document id, which
  the store keeps unique. The fields of an alert document are prefixed with \<open>alert_\<close>, since
  \<open>building_id\<close> and \<open>last_cleaned_at\<close> are fields of a checkpoint too; \<open>details\<close> is optional
  because the earlier version of the watchdog writes alerts without it. The number
  \<open>hours_overdue\<close> has at most two decimals and is stored as its count of hundredths.
\<close>

datatype field_time = ServerTimestamp | Instant int

record checkpoint =
  building_id :: string
  is_active :: bool
  last_cleaned_timestamp :: "int option"
  last_cleaned_at :: "string option"
  current_status :: string
  updated_at :: field_time

record alert_details =
  hours_overdue :: int
  sla_threshold_hours :: int

record alert =
  alert_building_id :: string
  alert_checkpoint_id :: string
  alert_type :: string
  alert_severity :: string
  alert_status :: string
  alert_message :: string
  alert_details :: "alert_details option"
  alert_last_cleaned_at :: string
  alert_created_at :: field_time

record cleaning_log =
  log_checkpoint_id :: string
  log_created_at :: int

datatype write_op =
    SetAlert alert
  | UpdateCheckpointStatus string string field_time

datatype request =
    QueryOverdueCheckpoints int
  | QueryOpenAlertsIn "string list"
  | CommitBatch "write_op list"
  | QueryBuildings
  | QueryCheckpointsOfBuilding string
  | QueryLastLog string
  | QueryOpenAlertsOf string
  | AddAlert alert

record world =
  buildings :: "string list"
  checkpoints :: "(string \<times> checkpoint) list"
  cleaning_logs :: "cleaning_log list"
  alerts :: "alert list"
  requests :: "request list"

record backend =
  fails :: "nat \<Rightarrow> bool"
  server_time :: "nat \<Rightarrow> int"

datatype error = StoreError

text \<open>Sending a request: it is recorded in the trace whether or not the store serves it.\<close>

definition send :: "request \<Rightarrow> world \<Rightarrow> world" where
  "send r w = w\<lparr>requests := requests w @ [r]\<rparr>"

definition rejected :: "backend \<Rightarrow> world \<Rightarrow> bool" where
  "rejected be w = fails be (length (requests w))"

text \<open>
  \<^verbatim>\<open>db.collection("checkpoints").where("is_active", "==", true)
     .where("last_cleaned_timestamp", "<", thresholdTimestamp).get()\<close>.
  An inequality filter matches only documents that have the field, so a checkpoint without
  \<^verbatim>\<open>last_cleaned_timestamp\<close> is not returned. The order of the returned documents is the
  order of the collection list.
\<close>

definition is_overdue :: "int \<Rightarrow> checkpoint \<Rightarrow> bool" where
  "is_overdue t c =
     (is_active c \<and> (case last_cleaned_timestamp c of None \<Rightarrow> False | Some ts \<Rightarrow> ts < t))"

definition query_overdue_checkpoints ::
  "backend \<Rightarrow> int \<Rightarrow> world \<Rightarrow> (error + (string \<times> checkpoint) list) \<times> world" where
  "query_overdue_checkpoints be t w =
     (if rejected be w then (Inl StoreError, send (QueryOverdueCheckpoints t) w)
      else (Inr (filter (\<lambda>d. is_overdue t (snd d)) (checkpoints w)),
            send (QueryOverdueCheckpoints t) w))"

text \<open>
  \<^verbatim>\<open>db.collection("alerts").where("checkpoint_id", "in", chunk)
     .where("type", "==", "SLA_MISSING_CLEAN").where("status", "==", "OPEN").get()\<close>
\<close>

definition is_open_sla_alert :: "alert \<Rightarrow> bool" where
  "is_open_sla_alert a = (alert_type a = ''SLA_MISSING_CLEAN'' \<and> alert_status a = ''OPEN'')"

definition open_alerts_in :: "string list \<Rightarrow> alert list \<Rightarrow> alert list" where
  "open_alerts_in chunk as =
     filter (\<lambda>a. alert_checkpoint_id a \<in> set chunk \<and> is_open_sla_alert a) as"

definition query_open_alerts_in ::
  "backend \<Rightarrow> string list \<Rightarrow> world \<Rightarrow> (error + alert list) \<times> world" where
  "query_open_alerts_in be chunk w =
     (if rejected be w then (Inl StoreError, send (QueryOpenAlertsIn chunk) w)
      else (Inr (open_alerts_in chunk (alerts w)), send (QueryOpenAlertsIn chunk) w))"

text \<open>
  A write batch is applied atomically: all of its writes or none. \<^verbatim>\<open>batch.set\<close> on a fresh
  document reference adds a document (the generated document id is the position in the list);
  \<^verbatim>\<open>batch.update\<close> changes the named fields of an existing document and makes the whole
  batch fail when the document does not exist. The server replaces the
  \<^verbatim>\<open>serverTimestamp()\<close> sentinel by its own time.
\<close>

definition resolve_time :: "int \<Rightarrow> field_time \<Rightarrow> field_time" where
  "resolve_time srv ft = (case ft of ServerTimestamp \<Rightarrow> Instant srv | Instant t \<Rightarrow> Instant t)"

fun update_doc :: "string \<Rightarrow> (checkpoint \<Rightarrow> checkpoint) \<Rightarrow> (string \<times> checkpoint) list
    \<Rightarrow> (string \<times> checkpoint) list" where
  "update_doc i f [] = []"
| "update_doc i f ((j, c) # ds) = (if i = j then (j, f c) # ds else (j, c) # update_doc i f ds)"

fun apply_write :: "int \<Rightarrow> write_op \<Rightarrow> world \<Rightarrow> world option" where
  "apply_write srv (SetAlert a) w =
     Some (w\<lparr>alerts := alerts w @ [a\<lparr>alert_created_at := resolve_time srv (alert_created_at a)\<rparr>]\<rparr>)"
| "apply_write srv (UpdateCheckpointStatus i st ft) w =
     (if i \<in> fst ` set (checkpoints w)
      then Some (w\<lparr>checkpoints :=
             update_doc i (\<lambda>c. c\<lparr>current_status := st, updated_at := resolve_time srv ft\<rparr>)
               (checkpoints w)\<rparr>)
      else None)"

fun apply_writes :: "int \<Rightarrow> write_op list \<Rightarrow> world \<Rightarrow> world option" where
  "apply_writes srv [] w = Some w"
| "apply_writes srv (x # xs) w =
     (case apply_write srv x w of None \<Rightarrow> None | Some w' \<Rightarrow> apply_writes srv xs w')"

definition commit :: "backend \<Rightarrow> write_op list \<Rightarrow> world \<Rightarrow> (error + unit) \<times> world" where
  "commit be ws w =
     (if rejected be w then (Inl StoreError, send (CommitBatch ws) w)
      else (case apply_writes (server_time be (length (requests w))) ws w of
              None \<Rightarrow> (Inl StoreError, send (CommitBatch ws) w)
            | Some w' \<Rightarrow> (Inr (), send (CommitBatch ws) w')))"

section \<open>JavaScript numbers\<close>

text \<open>
  \<^verbatim>\<open>hoursOverdue = parseFloat(((now.getTime() - lastCleanedMs) / (1000 * 60 * 60)).toFixed(2))\<close>.
  Both operands of the subtraction are integers below \<open>2^53\<close>, so the difference is exact.
  The quotient is an IEEE 754 double: the rational quotient rounded to 53 significant bits,
  ties to even (\<open>fl\<close>; the quotients that occur are in the normal range, so subnormal numbers
  and overflow are not modelled). \<^verbatim>\<open>toFixed(2)\<close> takes the integer \<open>n\<close> for which \<open>n / 100\<close> is
  closest to the exact value of the double, the larger \<open>n\<close> of two, the sign being split off
  first; \<^verbatim>\<open>parseFloat\<close> reads the digits back as the double nearest to \<open>n / 100\<close>. That number
  is represented by \<open>n\<close>, its count of hundredths.
\<close>

definition round_half_even :: "rat \<Rightarrow> int" where
  "round_half_even x =
     (let f = \<lfloor>x\<rfloor>; d = x - of_int f
      in if d < 1 / 2 then f else if 1 / 2 < d then f + 1 else if even f then f else f + 1)"

definition binade :: "rat \<Rightarrow> int" where
  "binade x =
     (let p = fst (quotient_of x); q = snd (quotient_of x); e = bitlen p - bitlen q
      in if 2 powi e \<le> x then e else e - 1)"

definition fl :: "rat \<Rightarrow> rat" where
  "fl x =
     (if x = 0 then 0
      else let a = \<bar>x\<bar>; u = 2 powi (binade a - 52); r = of_int (round_half_even (a / u)) * u
           in if x < 0 then - r else r)"

definition toFixed2 :: "rat \<Rightarrow> int" where
  "toFixed2 x = (if x < 0 then - \<lfloor>(- x) * 100 + 1 / 2\<rfloor> else \<lfloor>x * 100 + 1 / 2\<rfloor>)"

definition hours_between :: "int \<Rightarrow> int \<Rightarrow> int" where
  "hours_between now_ms last_ms = toFixed2 (fl (of_int (now_ms - last_ms) / (1000 * 60 * 60)))"

text \<open>
  Template literals print a number by \<^verbatim>\<open>Number::toString\<close>: for the double nearest to
  \<open>n / 100\<close> that is the decimal expansion of \<open>n / 100\<close> without trailing zeros.
\<close>

definition digit_char :: "int \<Rightarrow> char" where
  "digit_char d = ''0123456789'' ! nat d"

function show_digits :: "int \<Rightarrow> string" where
  "show_digits n =
     (if n < 10 then [digit_char n] else show_digits (n div 10) @ [digit_char (n mod 10)])"
  by pat_completeness auto
termination
  by (relation "measure nat") auto

definition show_hundredths :: "int \<Rightarrow> string" where
  "show_hundredths h =
     (let a = \<bar>h\<bar>; ip = a div 100; fp = a mod 100
      in (if h < 0 then ''-'' else '''') @ show_digits ip @
         (if fp = 0 then ''''
          else if fp mod 10 = 0 then ''.'' @ [digit_char (fp div 10)]
          else ''.'' @ [digit_char (fp div 10), digit_char (fp mod 10)]))"

section \<open>The optimized watchdog\<close>

definition DEFAULT_MAX_GAP_HOURS :: int where
  "DEFAULT_MAX_GAP_HOURS = 4"

definition chunkSize :: nat where
  "chunkSize = 10"

definition thresholdTimestamp :: "int \<Rightarrow> int" where
  "thresholdTimestamp now_ms = now_ms - DEFAULT_MAX_GAP_HOURS * 60 * 60 * 1000"

text \<open>\<^verbatim>\<open>Array.prototype.slice(i, j)\<close> for \<open>0 \<le> i \<le> j\<close>.\<close>

definition slice :: "'a list \<Rightarrow> nat \<Rightarrow> nat \<Rightarrow> 'a list" where
  "slice xs i j = take (j - i) (drop i xs)"

text \<open>
  The chunk loop, lines 72 to 83: one membership query per chunk; every alert found marks its
  checkpoint in \<^verbatim>\<open>existingAlertsMap\<close>. A failed query throws out of the loop.
\<close>

definition mark_existing :: "alert list \<Rightarrow> (string \<rightharpoonup> bool) \<Rightarrow> (string \<rightharpoonup> bool)" where
  "mark_existing existingAlerts m = fold (\<lambda>a m'. m'(alert_checkpoint_id a \<mapsto> True)) existingAlerts m"

function chunk_loop ::
  "backend \<Rightarrow> string list \<Rightarrow> nat \<Rightarrow> (string \<rightharpoonup> bool) \<Rightarrow> world
     \<Rightarrow> (error + (string \<rightharpoonup> bool)) \<times> world" where
  "chunk_loop be checkpointIds i existingAlertsMap w =
     (if i < length checkpointIds then
        (case query_open_alerts_in be (slice checkpointIds i (i + chunkSize)) w of
           (Inl e, w') \<Rightarrow> (Inl e, w')
         | (Inr existingAlerts, w') \<Rightarrow>
             chunk_loop be checkpointIds (i + chunkSize)
               (mark_existing existingAlerts existingAlertsMap) w')
      else (Inr existingAlertsMap, w))"
  by pat_completeness auto
termination
  by (relation "measure (\<lambda>(be, checkpointIds, i, m, w). length checkpointIds - i)")
     (auto simp: chunkSize_def)

record alert_to_create =
  checkpointId :: string
  buildingId :: string
  lastCleanedAt :: string
  hoursOverdue :: int

text \<open>
  Lines 86 to 106: the checkpoints that need a new alert.
  \<^verbatim>\<open>data.last_cleaned_timestamp?.toMillis() || 0\<close> is 0 when the field is absent or the epoch.
\<close>

definition lastCleanedMs :: "checkpoint \<Rightarrow> int" where
  "lastCleanedMs c = (case last_cleaned_timestamp c of None \<Rightarrow> 0 | Some ts \<Rightarrow> ts)"

definition to_create :: "int \<Rightarrow> string \<times> checkpoint \<Rightarrow> alert_to_create" where
  "to_create now_ms d =
     \<lparr>checkpointId = fst d,
      buildingId = building_id (snd d),
      lastCleanedAt = (case last_cleaned_at (snd d) of
                         None \<Rightarrow> ''never''
                       | Some s \<Rightarrow> if s = '''' then ''never'' else s),
      hoursOverdue = hours_between now_ms (lastCleanedMs (snd d))\<rparr>"

fun collect_alerts ::
  "int \<Rightarrow> (string \<rightharpoonup> bool) \<Rightarrow> (string \<times> checkpoint) list \<Rightarrow> alert_to_create list" where
  "collect_alerts now_ms existingAlertsMap [] = []"
| "collect_alerts now_ms existingAlertsMap (d # ds) =
     (if existingAlertsMap (fst d) \<noteq> None then collect_alerts now_ms existingAlertsMap ds
      else to_create now_ms d # collect_alerts now_ms existingAlertsMap ds)"

text \<open>Lines 117 to 132: the document written for one alert.\<close>

definition new_alert :: "alert_to_create \<Rightarrow> alert" where
  "new_alert a =
     \<lparr>alert_building_id = buildingId a,
      alert_checkpoint_id = checkpointId a,
      alert_type = ''SLA_MISSING_CLEAN'',
      alert_severity = ''MEDIUM'',
      alert_status = ''OPEN'',
      alert_message = ''Area has not been cleaned in '' @ show_hundredths (hoursOverdue a) @
                      '' hours (SLA: '' @ show_hundredths (DEFAULT_MAX_GAP_HOURS * 100) @ ''h).'',
      alert_details = Some \<lparr>hours_overdue = hoursOverdue a,
                             sla_threshold_hours = DEFAULT_MAX_GAP_HOURS\<rparr>,
      alert_last_cleaned_at = lastCleanedAt a,
      alert_created_at = ServerTimestamp\<rparr>"

definition status_update :: "alert_to_create \<Rightarrow> write_op" where
  "status_update a = UpdateCheckpointStatus (checkpointId a) ''OVERDUE'' ServerTimestamp"

text \<open>
  The scheduled function. Its \<^verbatim>\<open>catch\<close> logs the error and throws it again, so a failure of
  any request is the result of the invocation.
\<close>

definition checkSlaCompliance :: "backend \<Rightarrow> int \<Rightarrow> world \<Rightarrow> (error + unit) \<times> world" where
  "checkSlaCompliance be now_ms w =
     (case query_overdue_checkpoints be (thresholdTimestamp now_ms) w of
        (Inl e, w1) \<Rightarrow> (Inl e, w1)
      | (Inr docs, w1) \<Rightarrow>
          if docs = [] then (Inr (), w1)
          else
            (case chunk_loop be (map fst docs) 0 Map.empty w1 of
               (Inl e, w2) \<Rightarrow> (Inl e, w2)
             | (Inr existingAlertsMap, w2) \<Rightarrow>
                 (let alertsToCreate = collect_alerts now_ms existingAlertsMap docs in
                  if alertsToCreate = [] then (Inr (), w2)
                  else
                    (case commit be (map (\<lambda>a. SetAlert (new_alert a)) alertsToCreate) w2 of
                       (Inl e, w3) \<Rightarrow> (Inl e, w3)
                     | (Inr u, w3) \<Rightarrow> commit be (map status_update alertsToCreate) w3))))"

section \<open>The nested-loop predecessor\<close>

text \<open>
  The earlier version of \<^verbatim>\<open>checkSlaCompliance\<close>: it reads all buildings, the checkpoints of
  each building, the latest cleaning log of each checkpoint and, for a breach, the OPEN alerts
  of the checkpoint, and adds one alert document at a time. It has no \<^verbatim>\<open>try\<close>: a failed
  request rejects the invocation. A log's \<^verbatim>\<open>created_at\<close> is taken as an instant in
  milliseconds; \<^verbatim>\<open>Date.prototype.toISOString\<close> belongs to the JavaScript runtime and is a
  parameter. The local names \<^verbatim>\<open>buildingId\<close> and \<^verbatim>\<open>lastCleanedAt\<close> are written \<open>bldId\<close> and
  \<open>lastCleanedDate\<close>.
\<close>

definition MAX_GAP_HOURS :: int where
  "MAX_GAP_HOURS = 4"

definition thresholdDate :: "int \<Rightarrow> int" where
  "thresholdDate now_ms = now_ms - MAX_GAP_HOURS * 60 * 60 * 1000"

definition query_buildings :: "backend \<Rightarrow> world \<Rightarrow> (error + string list) \<times> world" where
  "query_buildings be w =
     (if rejected be w then (Inl StoreError, send QueryBuildings w)
      else (Inr (buildings w), send QueryBuildings w))"

definition query_checkpoints_of ::
  "backend \<Rightarrow> string \<Rightarrow> world \<Rightarrow> (error + (string \<times> checkpoint) list) \<times> world" where
  "query_checkpoints_of be bldId w =
     (if rejected be w then (Inl StoreError, send (QueryCheckpointsOfBuilding bldId) w)
      else (Inr (filter (\<lambda>d. building_id (snd d) = bldId) (checkpoints w)),
            send (QueryCheckpointsOfBuilding bldId) w))"

definition latest_created_at :: "string \<Rightarrow> cleaning_log list \<Rightarrow> int option" where
  "latest_created_at cpId logs =
     (case map log_created_at (filter (\<lambda>l. log_checkpoint_id l = cpId) logs) of
        [] \<Rightarrow> None
      | t # ts \<Rightarrow> Some (fold max ts t))"

definition query_last_log :: "backend \<Rightarrow> string \<Rightarrow> world \<Rightarrow> (error + int option) \<times> world" where
  "query_last_log be cpId w =
     (if rejected be w then (Inl StoreError, send (QueryLastLog cpId) w)
      else (Inr (latest_created_at cpId (cleaning_logs w)), send (QueryLastLog cpId) w))"

definition query_open_alerts_of :: "backend \<Rightarrow> string \<Rightarrow> world \<Rightarrow> (error + alert list) \<times> world" where
  "query_open_alerts_of be cpId w =
     (if rejected be w then (Inl StoreError, send (QueryOpenAlertsOf cpId) w)
      else (Inr (filter (\<lambda>a. alert_checkpoint_id a = cpId \<and> alert_status a = ''OPEN'' \<and>
                             alert_type a = ''SLA_MISSING_CLEAN'') (alerts w)),
            send (QueryOpenAlertsOf cpId) w))"

definition add_alert :: "backend \<Rightarrow> alert \<Rightarrow> world \<Rightarrow> (error + unit) \<times> world" where
  "add_alert be a w =
     (if rejected be w then (Inl StoreError, send (AddAlert a) w)
      else (Inr (),
            send (AddAlert a)
              (w\<lparr>alerts := alerts w @
                   [a\<lparr>alert_created_at :=
                        resolve_time (server_time be (length (requests w))) (alert_created_at a)\<rparr>]\<rparr>)))"

definition naive_alert :: "(int \<Rightarrow> string) \<Rightarrow> string \<Rightarrow> string \<Rightarrow> int \<Rightarrow> alert" where
  "naive_alert toISOString bldId cpId lastCleanedDate =
     \<lparr>alert_building_id = bldId,
      alert_checkpoint_id = cpId,
      alert_type = ''SLA_MISSING_CLEAN'',
      alert_severity = ''MEDIUM'',
      alert_status = ''OPEN'',
      alert_message = ''Area has not been cleaned in over '' @
                      show_hundredths (MAX_GAP_HOURS * 100) @ '' hours.'',
      alert_details = None,
      alert_last_cleaned_at = toISOString lastCleanedDate,
      alert_created_at = ServerTimestamp\<rparr>"

definition check_checkpoint ::
  "backend \<Rightarrow> (int \<Rightarrow> string) \<Rightarrow> int \<Rightarrow> string \<Rightarrow> string \<Rightarrow> world \<Rightarrow> (error + unit) \<times> world" where
  "check_checkpoint be toISOString now_ms bldId cpId w =
     (case query_last_log be cpId w of
        (Inl e, w1) \<Rightarrow> (Inl e, w1)
      | (Inr lastLog, w1) \<Rightarrow>
          (let lastCleanedDate = (case lastLog of None \<Rightarrow> 0 | Some t \<Rightarrow> t) in
           if lastCleanedDate < thresholdDate now_ms then
             (case query_open_alerts_of be cpId w1 of
                (Inl e, w2) \<Rightarrow> (Inl e, w2)
              | (Inr activeAlerts, w2) \<Rightarrow>
                  if activeAlerts = []
                  then add_alert be (naive_alert toISOString bldId cpId lastCleanedDate) w2
                  else (Inr (), w2))
           else (Inr (), w1)))"

fun check_checkpoints ::
  "backend \<Rightarrow> (int \<Rightarrow> string) \<Rightarrow> int \<Rightarrow> string \<Rightarrow> (string \<times> checkpoint) list \<Rightarrow> world
     \<Rightarrow> (error + unit) \<times> world" where
  "check_checkpoints be toISOString now_ms bldId [] w = (Inr (), w)"
| "check_checkpoints be toISOString now_ms bldId (cpDoc # cpDocs) w =
     (case check_checkpoint be toISOString now_ms bldId (fst cpDoc) w of
        (Inl e, w') \<Rightarrow> (Inl e, w')
      | (Inr u, w') \<Rightarrow> check_checkpoints be toISOString now_ms bldId cpDocs w')"

definition check_building ::
  "backend \<Rightarrow> (int \<Rightarrow> string) \<Rightarrow> int \<Rightarrow> string \<Rightarrow> world \<Rightarrow> (error + unit) \<times> world" where
  "check_building be toISOString now_ms bldId w =
     (case query_checkpoints_of be bldId w of
        (Inl e, w1) \<Rightarrow> (Inl e, w1)
      | (Inr cpDocs, w1) \<Rightarrow> check_checkpoints be toISOString now_ms bldId cpDocs w1)"

fun check_buildings ::
  "backend \<Rightarrow> (int \<Rightarrow> string) \<Rightarrow> int \<Rightarrow> string list \<Rightarrow> world \<Rightarrow> (error + unit) \<times> world" where
  "check_buildings be toISOString now_ms [] w = (Inr (), w)"
| "check_buildings be toISOString now_ms (bldId # bs) w =
     (case check_building be toISOString now_ms bldId w of
        (Inl e, w') \<Rightarrow> (Inl e, w')
      | (Inr u, w') \<Rightarrow> check_buildings be toISOString now_ms bs w')"

definition checkSlaCompliance_naive ::
  "backend \<Rightarrow> (int \<Rightarrow> string) \<Rightarrow> int \<Rightarrow> world \<Rightarrow> (error + unit) \<times> world" where
  "checkSlaCompliance_naive be toISOString now_ms w =
     (case query_buildings be w of
        (Inl e, w1) \<Rightarrow> (Inl e, w1)
      | (Inr bs, w1) \<Rightarrow> check_buildings be toISOString now_ms bs w1)"

section \<open>The privacy filter\<close>

text \<open>
  \<^verbatim>\<open>sanitizeLogForAI\<close> projects a cleaning log onto the paths of
  \<^verbatim>\<open>AI_SAFE_FIELDS.cleaningLog\<close> and redacts the rejection reason. Records are JSON values:
  an object is the list of its properties in insertion order, read with \<open>map_of\<close> and written
  with \<open>AList.update\<close> (an existing key keeps its place, a new key goes last); a property that
  is absent reads as \<^verbatim>\<open>undefined\<close>, here \<open>None\<close>. Strings, numbers, booleans and arrays have
  none of the named properties (\<^verbatim>\<open>length\<close>, indices and inherited properties are no part of
  any path of the policy), and \<^verbatim>\<open>JSON.parse(JSON.stringify(obj))\<close> is the identity on
  these values. Assigning a property of a value that is not an object is a \<^verbatim>\<open>TypeError\<close>
  (the modules are strict-mode code).

  \<^verbatim>\<open>pickPaths\<close> follows each path in the source and in the result at once. When an
  intermediate key is absent in the source, the loop goes on to the next part with the same
  source and target, so the last part is then read from the enclosing object. The nested
  object \<^verbatim>\<open>target[key] || {}\<close> is the one already in the result when there is one. The result is
  built by value; that is what the code computes as long as no object of the result is shared
  with the input, which holds for the path lists of the policy (no path extends another, and
  no last part is the first part of a nested path).

  \<^verbatim>\<open>redactText\<close> applies \<^verbatim>\<open>String.prototype.replace\<close> with the regular expressions of
  \<^verbatim>\<open>REDACTION_PATTERNS\<close>; the regular expression engine belongs to the runtime, so the function
  is a parameter. Called on a value that is not a string it throws a \<^verbatim>\<open>TypeError\<close>.
\<close>

datatype json =
    JNull
  | JBool bool
  | JNum rat
  | JStr string
  | JArr "json list"
  | JObj "(string \<times> json) list"

datatype js_error = TypeError

definition get_prop :: "json \<Rightarrow> string \<Rightarrow> json option" where
  "get_prop v key = (case v of JObj kvs \<Rightarrow> map_of kvs key | _ \<Rightarrow> None)"

definition set_prop :: "json \<Rightarrow> string \<Rightarrow> json \<Rightarrow> js_error + json" where
  "set_prop target key v =
     (case target of JObj kvs \<Rightarrow> Inr (JObj (AList.update key v kvs)) | _ \<Rightarrow> Inl TypeError)"

definition truthy :: "json \<Rightarrow> bool" where
  "truthy v =
     (case v of
        JNull \<Rightarrow> False
      | JBool b \<Rightarrow> b
      | JNum n \<Rightarrow> n \<noteq> 0
      | JStr s \<Rightarrow> s \<noteq> ''''
      | JArr xs \<Rightarrow> True
      | JObj kvs \<Rightarrow> True)"

fun split_on :: "char \<Rightarrow> string \<Rightarrow> string list" where
  "split_on c [] = [[]]"
| "split_on c (x # xs) =
     (if x = c then [] # split_on c xs
      else (case split_on c xs of [] \<Rightarrow> [[x]] | p # ps \<Rightarrow> (x # p) # ps))"

fun pick_parts :: "json \<Rightarrow> json \<Rightarrow> string list \<Rightarrow> js_error + json" where
  "pick_parts source target [] = Inr target"
| "pick_parts source target (key # rest) =
     (if source = JNull then Inr target
      else if rest = [] then
        (case get_prop source key of
           None \<Rightarrow> Inr target
         | Some v \<Rightarrow> set_prop target key v)
      else
        (case get_prop source key of
           None \<Rightarrow> pick_parts source target rest
         | Some v \<Rightarrow>
             (case pick_parts v
                     (case get_prop target key of
                        None \<Rightarrow> JObj []
                      | Some t \<Rightarrow> if truthy t then t else JObj [])
                     rest of
                Inl e \<Rightarrow> Inl e
              | Inr inner \<Rightarrow> set_prop target key inner)))"

fun pick_loop :: "json \<Rightarrow> json \<Rightarrow> string list \<Rightarrow> js_error + json" where
  "pick_loop obj result [] = Inr result"
| "pick_loop obj result (path # paths) =
     (case pick_parts obj result (split_on CHR ''.'' path) of
        Inl e \<Rightarrow> Inl e
      | Inr result' \<Rightarrow> pick_loop obj result' paths)"

definition pickPaths :: "json \<Rightarrow> string list \<Rightarrow> js_error + json" where
  "pickPaths obj paths = pick_loop obj (JObj []) paths"

fun omit_parts :: "json \<Rightarrow> string list \<Rightarrow> json" where
  "omit_parts current [] = current"
| "omit_parts current [key] =
     (case current of JObj kvs \<Rightarrow> JObj (AList.delete key kvs) | _ \<Rightarrow> current)"
| "omit_parts current (key # rest) =
     (case current of
        JObj kvs \<Rightarrow>
          (case map_of kvs key of
             None \<Rightarrow> current
           | Some v \<Rightarrow> JObj (AList.update key (omit_parts v rest) kvs))
      | _ \<Rightarrow> current)"

definition omitPaths :: "json \<Rightarrow> string list \<Rightarrow> json" where
  "omitPaths obj paths = fold (\<lambda>path clone. omit_parts clone (split_on CHR ''.'' path)) paths obj"

definition AI_SAFE_FIELDS_cleaningLog :: "string list" where
  "AI_SAFE_FIELDS_cleaningLog =
     [''id'', ''checkpoint_id'', ''building_id'', ''sync_status'', ''created_at'',
      ''proof_of_quality.overall_score'', ''proof_of_quality.detected_objects'',
      ''proof_of_quality.ai_model_used'', ''proof_of_quality.inference_time_ms'',
      ''proof_of_quality.passed_validation'',
      ''verification_result.status'', ''verification_result.rejection_reason'']"

definition PII_FIELDS_cleaningLog :: "string list" where
  "PII_FIELDS_cleaningLog =
     [''cleaner_id'', ''proof_of_presence.geo_location'', ''proof_of_presence.nfc_tap_timestamp'']"

definition sanitizeLogForAI :: "(string \<Rightarrow> string) \<Rightarrow> json \<Rightarrow> js_error + json" where
  "sanitizeLogForAI redactText cleaningLog =
     (case pickPaths cleaningLog AI_SAFE_FIELDS_cleaningLog of
        Inl e \<Rightarrow> Inl e
      | Inr sanitized \<Rightarrow>
          (case get_prop sanitized ''verification_result'' of
             None \<Rightarrow> Inr sanitized
           | Some vr \<Rightarrow>
               (case get_prop vr ''rejection_reason'' of
                  None \<Rightarrow> Inr sanitized
                | Some reason \<Rightarrow>
                    if truthy reason then
                      (case reason of
                         JStr text \<Rightarrow>
                           (case set_prop vr ''rejection_reason'' (JStr (redactText text)) of
                              Inl e \<Rightarrow> Inl e
                            | Inr vr' \<Rightarrow> set_prop sanitized ''verification_result'' vr')
                       | _ \<Rightarrow> Inl TypeError)
                    else Inr sanitized)))"

function getAllPaths :: "(string \<times> json) list \<Rightarrow> string \<Rightarrow> string list" where
  "getAllPaths [] prefix = []"
| "getAllPaths ((key, v) # kvs) prefix =
     (let fullPath = (if prefix = '''' then key else prefix @ ''.'' @ key)
      in fullPath # (case v of JObj inner \<Rightarrow> getAllPaths inner fullPath | _ \<Rightarrow> []) @
         getAllPaths kvs prefix)"
  by pat_completeness auto
termination
  by (relation "measure (\<lambda>(kvs, prefix). size_list (size_prod (\<lambda>_. 0) size) kvs)") auto

section \<open>Vocabulary of the properties\<close>

text \<open>
  The contents of the store without the trace of requests; the chunks the loop cuts, and the
  marks their results leave in \<^verbatim>\<open>existingAlertsMap\<close>, as functions of the identifier list; the
  overdue documents, the alerts a run has to create and the requests it sends, as functions of
  the store.
\<close>

definition store_of :: "world \<Rightarrow> string list \<times> (string \<times> checkpoint) list \<times> cleaning_log list \<times> alert list" where
  "store_of w = (buildings w, checkpoints w, cleaning_logs w, alerts w)"

function chunks :: "'a list \<Rightarrow> nat \<Rightarrow> 'a list list" where
  "chunks xs i = (if i < length xs then slice xs i (i + chunkSize) # chunks xs (i + chunkSize) else [])"
  by pat_completeness auto
termination
  by (relation "measure (\<lambda>(xs, i). length xs - i)") (auto simp: chunkSize_def)

definition marks :: "alert list \<Rightarrow> string list list \<Rightarrow> (string \<rightharpoonup> bool) \<Rightarrow> (string \<rightharpoonup> bool)" where
  "marks as cs m = fold (\<lambda>c. mark_existing (open_alerts_in c as)) cs m"

definition has_open_alert :: "alert list \<Rightarrow> string \<Rightarrow> bool" where
  "has_open_alert as i = (\<exists>a\<in>set as. alert_checkpoint_id a = i \<and> is_open_sla_alert a)"

definition stored_alert :: "int \<Rightarrow> alert_to_create \<Rightarrow> alert" where
  "stored_alert srv a = (new_alert a)\<lparr>alert_created_at := Instant srv\<rparr>"

definition mark_overdue :: "int \<Rightarrow> string list \<Rightarrow> (string \<times> checkpoint) list \<Rightarrow> (string \<times> checkpoint) list" where
  "mark_overdue srv ids cps =
     map (\<lambda>d. if fst d \<in> set ids
              then (fst d, (snd d)\<lparr>current_status := ''OVERDUE'', updated_at := Instant srv\<rparr>)
              else d) cps"

definition overdue_docs :: "int \<Rightarrow> world \<Rightarrow> (string \<times> checkpoint) list" where
  "overdue_docs now_ms w = filter (\<lambda>d. is_overdue (thresholdTimestamp now_ms) (snd d)) (checkpoints w)"

definition alerts_needed :: "int \<Rightarrow> world \<Rightarrow> alert_to_create list" where
  "alerts_needed now_ms w =
     collect_alerts now_ms (marks (alerts w) (chunks (map fst (overdue_docs now_ms w)) 0) Map.empty)
       (overdue_docs now_ms w)"

definition dedup_requests :: "int \<Rightarrow> world \<Rightarrow> request list" where
  "dedup_requests now_ms w =
     QueryOverdueCheckpoints (thresholdTimestamp now_ms) #
     map QueryOpenAlertsIn (chunks (map fst (overdue_docs now_ms w)) 0)"

definition alert_batch :: "int \<Rightarrow> world \<Rightarrow> request" where
  "alert_batch now_ms w = CommitBatch (map (\<lambda>a. SetAlert (new_alert a)) (alerts_needed now_ms w))"

definition status_batch :: "int \<Rightarrow> world \<Rightarrow> request" where
  "status_batch now_ms w = CommitBatch (map status_update (alerts_needed now_ms w))"

text \<open>
  The invariant of the alert collection: no two OPEN alerts of type SLA_MISSING_CLEAN name the
  same checkpoint.
\<close>

definition at_most_one_open :: "alert list \<Rightarrow> bool" where
  "at_most_one_open as = distinct (map alert_checkpoint_id (filter is_open_sla_alert as))"

definition open_count :: "alert list \<Rightarrow> string \<Rightarrow> nat" where
  "open_count as i = length (filter (\<lambda>a. alert_checkpoint_id a = i \<and> is_open_sla_alert a) as)"

definition batch_sizes :: "request list \<Rightarrow> nat list" where
  "batch_sizes rs = concat (map (\<lambda>r. case r of CommitBatch ws \<Rightarrow> [length ws] | _ \<Rightarrow> []) rs)"

definition is_query :: "request \<Rightarrow> bool" where
  "is_query r = (case r of CommitBatch ws \<Rightarrow> False | AddAlert a \<Rightarrow> False | _ \<Rightarrow> True)"

text \<open>
  Sample stores and backends. The instant 1766937600000 is 2025-12-28T16:00:00Z; the cutoff of
  a run at that instant is 1766923200000.
\<close>

definition demo_checkpoint :: "int \<Rightarrow> checkpoint" where
  "demo_checkpoint ts =
     \<lparr>building_id = ''bld_001'', is_active = True, last_cleaned_timestamp = Some ts,
      last_cleaned_at = Some ''2025-12-28T08:00:00Z'', current_status = ''CLEAN'',
      updated_at = Instant ts\<rparr>"

definition reliable :: backend where
  "reliable = \<lparr>fails = (\<lambda>n. False), server_time = (\<lambda>n. 1766937600000 + int n)\<rparr>"

definition crowded :: world where
  "crowded =
     \<lparr>buildings = [''bld_001''],
      checkpoints = map (\<lambda>n. (''cp_'' @ show_digits (int n), demo_checkpoint 1766908800000)) [0..<501],
      cleaning_logs = [], alerts = [], requests = []\<rparr>"

definition demo :: world where
  "demo =
     \<lparr>buildings = [''bld_001''],
      checkpoints =
        [(''cp_001'', demo_checkpoint 1766919600000),
         (''cp_002'', demo_checkpoint 1766916000000),
         (''cp_003'', demo_checkpoint 1766934000000),
         (''cp_004'', (demo_checkpoint 1766908800000)\<lparr>is_active := False\<rparr>)],
      cleaning_logs = [],
      alerts =
        [\<lparr>alert_building_id = ''bld_001'', alert_checkpoint_id = ''cp_002'',
          alert_type = ''SLA_MISSING_CLEAN'', alert_severity = ''MEDIUM'', alert_status = ''OPEN'',
          alert_message = ''Area has not been cleaned in 4.5 hours (SLA: 4h).'',
          alert_details = Some \<lparr>hours_overdue = 450, sla_threshold_hours = 4\<rparr>,
          alert_last_cleaned_at = ''2025-12-28T10:00:00Z'',
          alert_created_at = Instant 1766932200000\<rparr>],
      requests = []\<rparr>"

definition quiet :: world where
  "quiet = demo\<lparr>checkpoints := [(''cp_003'', demo_checkpoint 1766934000000)], alerts := []\<rparr>"

definition flaky :: "nat \<Rightarrow> backend" where
  "flaky n = \<lparr>fails = (\<lambda>k. k = n), server_time = (\<lambda>k. 1766937600000 + int k)\<rparr>"

definition many_docs :: "(string \<times> checkpoint) list" where
  "many_docs = map (\<lambda>n. (''cp_'' @ show_digits (int n), demo_checkpoint 1766908800000)) [0..<25]"

definition late :: world where
  "late = quiet\<lparr>checkpoints := [(''cp_001'', demo_checkpoint 1766923200000)]\<rparr>"

text \<open>
  For the comparison of the two versions: the checkpoints of the alerts a run added; the
  breach test of the nested loops; a store whose checkpoints are all active and carry the
  instant of their latest cleaning log (\<open>denormalized\<close>) and whose checkpoints all belong to a
  building of the buildings collection (\<open>housed\<close>).
\<close>

definition new_alert_ids :: "world \<Rightarrow> world \<Rightarrow> string list" where
  "new_alert_ids w w' = map alert_checkpoint_id (drop (length (alerts w)) (alerts w'))"

definition breached :: "int \<Rightarrow> world \<Rightarrow> string \<Rightarrow> bool" where
  "breached now_ms w cpId =
     ((case latest_created_at cpId (cleaning_logs w) of None \<Rightarrow> 0 | Some t \<Rightarrow> t)
        < thresholdDate now_ms)"

definition denormalized :: "world \<Rightarrow> bool" where
  "denormalized w =
     list_all (\<lambda>d. is_active (snd d) \<and>
        last_cleaned_timestamp (snd d) =
          Some (case latest_created_at (fst d) (cleaning_logs w) of None \<Rightarrow> 0 | Some t \<Rightarrow> t))
       (checkpoints w)"

definition orphaned :: world where
  "orphaned =
     \<lparr>buildings = [],
      checkpoints = [(''cp_001'', (demo_checkpoint 0)\<lparr>last_cleaned_at := None\<rparr>)],
      cleaning_logs = [], alerts = [], requests = []\<rparr>"

definition millis_label :: "int \<Rightarrow> string" where
  "millis_label t = (if t = 0 then ''1970-01-01T00:00:00.000Z'' else ''ms '' @ show_hundredths (t * 100))"

definition naive_pending :: "int \<Rightarrow> world \<Rightarrow> string \<Rightarrow> bool" where
  "naive_pending now_ms w cpId = (breached now_ms w cpId \<and> \<not> has_open_alert (alerts w) cpId)"

definition housed :: "world \<Rightarrow> bool" where
  "housed w = list_all (\<lambda>d. building_id (snd d) \<in> set (buildings w)) (checkpoints w)"

definition logged :: world where
  "logged =
     \<lparr>buildings = [''bld_001''],
      checkpoints =
        [(''cp_001'', demo_checkpoint 1766919600000),
         (''cp_002'', (demo_checkpoint 0)\<lparr>last_cleaned_at := None\<rparr>)],
      cleaning_logs =
        [\<lparr>log_checkpoint_id = ''cp_001'', log_created_at = 1766890800000\<rparr>,
         \<lparr>log_checkpoint_id = ''cp_001'', log_created_at = 1766919600000\<rparr>],
      alerts = [], requests = []\<rparr>"

text \<open>
  The interface \<^verbatim>\<open>CleaningLog\<close> is declared in a file that is not among the sources. What
  the projection needs of a well-typed log is stated as a condition on the record
  (\<open>cleaning_log_shaped\<close>): none of the names of nested fields occurs at the top level, and
  the fields the policy lists hold scalars or arrays, not objects.
\<close>

fun lookup_path :: "json \<Rightarrow> string list \<Rightarrow> json option" where
  "lookup_path v [] = Some v"
| "lookup_path v (key # rest) =
     (case get_prop v key of None \<Rightarrow> None | Some x \<Rightarrow> lookup_path x rest)"

definition scalar :: "json \<Rightarrow> bool" where
  "scalar v = (case v of JObj kvs \<Rightarrow> False | _ \<Rightarrow> True)"

definition nested_leaf_names :: "string list" where
  "nested_leaf_names =
     [''overall_score'', ''detected_objects'', ''ai_model_used'', ''inference_time_ms'',
      ''passed_validation'', ''status'', ''rejection_reason'']"

definition cleaning_log_shaped :: "json \<Rightarrow> bool" where
  "cleaning_log_shaped cleaningLog =
     (list_all (\<lambda>key. get_prop cleaningLog key = None) nested_leaf_names \<and>
      list_all (\<lambda>path. case lookup_path cleaningLog (split_on CHR ''.'' path) of
                         None \<Rightarrow> True | Some v \<Rightarrow> scalar v)
        AI_SAFE_FIELDS_cleaningLog)"

definition top_fields :: "string list" where
  "top_fields = [''id'', ''checkpoint_id'', ''building_id'', ''sync_status'', ''created_at'']"

definition quality_fields :: "string list" where
  "quality_fields =
     [''overall_score'', ''detected_objects'', ''ai_model_used'', ''inference_time_ms'',
      ''passed_validation'']"

definition verification_fields :: "string list" where
  "verification_fields = [''status'', ''rejection_reason'']"

definition flat :: "string list \<Rightarrow> (string \<times> json) list \<Rightarrow> bool" where
  "flat allowed s = list_all (\<lambda>d. fst d \<in> set allowed \<and> scalar (snd d)) s"

definition entry_ok :: "string \<times> json \<Rightarrow> bool" where
  "entry_ok d =
     (if fst d = ''proof_of_quality''
      then (case snd d of JObj s \<Rightarrow> flat quality_fields s | _ \<Rightarrow> False)
      else if fst d = ''verification_result''
      then (case snd d of JObj s \<Rightarrow> flat verification_fields s | _ \<Rightarrow> False)
      else fst d \<in> set top_fields \<and> scalar (snd d))"

definition sanitized_shape :: "json \<Rightarrow> bool" where
  "sanitized_shape out = (case out of JObj t \<Rightarrow> list_all entry_ok t | _ \<Rightarrow> False)"

definition safe_step :: "json \<Rightarrow> string list \<Rightarrow> bool" where
  "safe_step obj parts =
     (case parts of
        [k] \<Rightarrow> k \<in> set top_fields \<and> (case get_prop obj k of None \<Rightarrow> True | Some v \<Rightarrow> scalar v)
      | [a, b] \<Rightarrow>
          (if a = ''proof_of_quality'' then b \<in> set quality_fields
           else a = ''verification_result'' \<and> b \<in> set verification_fields) \<and>
          get_prop obj b = None \<and>
          (case get_prop obj a of
             None \<Rightarrow> True
           | Some v \<Rightarrow> (case get_prop v b of None \<Rightarrow> True | Some x \<Rightarrow> scalar x))
      | _ \<Rightarrow> False)"

definition sanitized_names :: "string list" where
  "sanitized_names = concat (map (split_on CHR ''.'') AI_SAFE_FIELDS_cleaningLog)"

definition sample_fields :: "(string \<times> json) list" where
  "sample_fields =
     [(''id'', JStr ''log_1''), (''checkpoint_id'', JStr ''cp_001''), (''building_id'', JStr ''bld_001''),
      (''cleaner_id'', JStr ''EMP-0042''), (''created_at'', JStr ''2025-12-28T08:00:00Z''),
      (''proof_of_presence'', JObj [(''nfc_payload_hash'', JStr ''ab12''),
          (''geo_location'', JObj [(''latitude'', JNum 52), (''longitude'', JNum 13)]),
          (''nfc_tap_timestamp'', JStr ''2025-12-28T07:59:58Z'')]),
      (''proof_of_quality'', JObj [(''overall_score'', JNum (19 / 20)),
          (''detected_objects'', JArr [JStr ''mop'']), (''passed_validation'', JBool True)]),
      (''verification_result'', JObj [(''status'', JStr ''rejected''),
          (''rejection_reason'', JStr ''call EMP-0042'')])]"

definition other_fields :: "(string \<times> json) list" where
  "other_fields =
     [(''id'', JStr ''log_1''), (''checkpoint_id'', JStr ''cp_001''), (''building_id'', JStr ''bld_001''),
      (''cleaner_id'', JStr ''EMP-0077''), (''created_at'', JStr ''2025-12-28T08:00:00Z''),
      (''proof_of_presence'', JObj [(''nfc_payload_hash'', JStr ''ab12''),
          (''geo_location'', JObj [(''latitude'', JNum 48), (''longitude'', JNum 2)])]),
      (''proof_of_quality'', JObj [(''overall_score'', JNum (19 / 20)),
          (''detected_objects'', JArr [JStr ''mop'']), (''passed_validation'', JBool True)]),
      (''verification_result'', JObj [(''status'', JStr ''rejected''),
          (''rejection_reason'', JStr ''call EMP-0042'')])]"

definition redact_all :: "string \<Rightarrow> string" where
  "redact_all text = ''[REDACTED]''"

section \<open>The chunk loop\<close>

declare chunks.simps [simp del]

declare chunk_loop.simps [simp del]

lemma send_sel [simp]:
  "buildings (send r w) = buildings w"
  "checkpoints (send r w) = checkpoints w"
  "cleaning_logs (send r w) = cleaning_logs w"
  "alerts (send r w) = alerts w"
  "requests (send r w) = requests w @ [r]"
  by (simp_all add: send_def)

lemma store_of_send [simp]: "store_of (send r w) = store_of w"
  by (simp add: store_of_def)

lemma ceil10_step: "i < n \<Longrightarrow> Suc ((n - (i + 10) + 9) div 10) = (n - i + 9) div (10::nat)"
proof (cases "i + 10 \<le> n")
  case True
  then have "n - i + 9 = (n - (i + 10) + 9) + 10" by simp
  then show ?thesis by (simp only: div_add_self2)
next
  case False
  assume "i < n"
  with False have "n - (i + 10) = 0" "0 < n - i" "n - i < 10" by simp_all
  then show ?thesis by simp
qed

lemma length_chunks: "length (chunks xs i) = (length xs - i + 9) div 10"
proof (induction xs i rule: chunks.induct)
  case (1 xs i)
  show ?case
  proof (cases "i < length xs")
    case True
    then have "length (chunks xs i) = Suc (length (chunks xs (i + chunkSize)))"
      by (subst chunks.simps) simp
    also have "\<dots> = Suc ((length xs - (i + 10) + 9) div 10)"
      using 1 True by (simp add: chunkSize_def)
    also have "\<dots> = (length xs - i + 9) div 10"
      using True by (rule ceil10_step)
    finally show ?thesis .
  next
    case False
    then show ?thesis by (subst chunks.simps) simp
  qed
qed

lemma concat_chunks: "concat (chunks xs i) = drop i xs"
proof (induction xs i rule: chunks.induct)
  case (1 xs i)
  show ?case
  proof (cases "i < length xs")
    case True
    have "take chunkSize (drop i xs) @ drop (i + chunkSize) xs = drop i xs"
      by (metis add.commute append_take_drop_id drop_drop)
    with 1 True show ?thesis
      by (subst chunks.simps) (simp add: slice_def)
  next
    case False
    then show ?thesis by (subst chunks.simps) simp
  qed
qed

lemma chunks_bounded: "c \<in> set (chunks xs i) \<Longrightarrow> c \<noteq> [] \<and> length c \<le> 10"
proof (induction xs i rule: chunks.induct)
  case (1 xs i)
  show ?case
  proof (cases "i < length xs")
    case True
    with 1 show ?thesis
      by (subst (asm) (2) chunks.simps) (auto simp: slice_def chunkSize_def)
  next
    case False
    with 1 show ?thesis by (subst (asm) (2) chunks.simps) simp
  qed
qed

lemma chunk_loop_frame:
  "chunk_loop be ids i m w = (r, w') \<Longrightarrow>
     store_of w' = store_of w \<and> (\<exists>cs. requests w' = requests w @ map QueryOpenAlertsIn cs)"
proof (induction be ids i m w arbitrary: r w' rule: chunk_loop.induct)
  case (1 be ids i m w)
  show ?case
  proof (cases "i < length ids")
    case False
    with 1(2) show ?thesis by (subst (asm) chunk_loop.simps) auto
  next
    case True
    let ?c = "slice ids i (i + chunkSize)"
    let ?w1 = "send (QueryOpenAlertsIn ?c) w"
    show ?thesis
    proof (cases "rejected be w")
      case rej: True
      with True 1(2) have "w' = ?w1"
        by (subst (asm) chunk_loop.simps) (simp add: query_open_alerts_in_def)
      then show ?thesis by (auto intro: exI [of _ "[?c]"])
    next
      case ok: False
      then have q: "query_open_alerts_in be ?c w = (Inr (open_alerts_in ?c (alerts w)), ?w1)"
        by (simp add: query_open_alerts_in_def)
      with True 1(2) have
        "chunk_loop be ids (i + chunkSize) (mark_existing (open_alerts_in ?c (alerts w)) m) ?w1 = (r, w')"
        by (subst (asm) chunk_loop.simps) simp
      from 1(1) [OF True q [symmetric] refl this]
      obtain cs where "store_of w' = store_of ?w1" "requests w' = requests ?w1 @ map QueryOpenAlertsIn cs"
        by blast
      then show ?thesis by (auto intro: exI [of _ "?c # cs"])
    qed
  qed
qed

lemma mark_existing_None:
  "(mark_existing as m x = None) = (m x = None \<and> x \<notin> alert_checkpoint_id ` set as)"
  unfolding mark_existing_def by (induction as arbitrary: m) auto

lemma marks_None:
  "(marks as cs m x = None) = (m x = None \<and> \<not> (x \<in> set (concat cs) \<and> has_open_alert as x))"
  unfolding marks_def
proof (induction cs arbitrary: m)
  case Nil
  then show ?case by simp
next
  case (Cons c cs)
  have "(mark_existing (open_alerts_in c as) m x = None) =
        (m x = None \<and> \<not> (x \<in> set c \<and> has_open_alert as x))"
    by (auto simp: mark_existing_None open_alerts_in_def has_open_alert_def)
  then show ?case
    by (simp only: fold_simps Cons.IH concat.simps set_append Un_iff) blast
qed

lemma chunk_loop_ok:
  "(\<And>k. k < length (chunks ids i) \<Longrightarrow> \<not> fails be (length (requests w) + k)) \<Longrightarrow>
   chunk_loop be ids i m w =
     (Inr (marks (alerts w) (chunks ids i) m),
      w\<lparr>requests := requests w @ map QueryOpenAlertsIn (chunks ids i)\<rparr>)"
proof (induction be ids i m w rule: chunk_loop.induct)
  case (1 be ids i m w)
  show ?case
  proof (cases "i < length ids")
    case False
    then show ?thesis
      by (subst chunk_loop.simps, subst chunks.simps, subst chunks.simps) (simp add: marks_def)
  next
    case True
    let ?c = "slice ids i (i + chunkSize)"
    let ?w1 = "send (QueryOpenAlertsIn ?c) w"
    have cs: "chunks ids i = ?c # chunks ids (i + chunkSize)"
      using True by (subst chunks.simps) simp
    have "\<not> fails be (length (requests w) + 0)"
      by (rule 1(2)) (simp add: cs)
    then have ok: "\<not> rejected be w" by (simp add: rejected_def)
    then have q: "query_open_alerts_in be ?c w = (Inr (open_alerts_in ?c (alerts w)), ?w1)"
      by (simp add: query_open_alerts_in_def)
    have "\<not> fails be (length (requests ?w1) + k)" if "k < length (chunks ids (i + chunkSize))" for k
      using 1(2) [of "Suc k"] that by (simp add: cs)
    from 1(1) [OF True q [symmetric] refl this]
    have "chunk_loop be ids (i + chunkSize) (mark_existing (open_alerts_in ?c (alerts w)) m) ?w1 =
       (Inr (marks (alerts ?w1) (chunks ids (i + chunkSize)) (mark_existing (open_alerts_in ?c (alerts w)) m)),
        ?w1\<lparr>requests := requests ?w1 @ map QueryOpenAlertsIn (chunks ids (i + chunkSize))\<rparr>)"
      by simp
    then show ?thesis
      using True q by (subst chunk_loop.simps) (simp add: cs marks_def send_def)
  qed
qed

lemma chunk_loop_Inr:
  "chunk_loop be ids i m w = (Inr m', w') \<Longrightarrow>
   m' = marks (alerts w) (chunks ids i) m \<and>
   w' = w\<lparr>requests := requests w @ map QueryOpenAlertsIn (chunks ids i)\<rparr>"
proof (induction be ids i m w arbitrary: m' w' rule: chunk_loop.induct)
  case (1 be ids i m w)
  show ?case
  proof (cases "i < length ids")
    case False
    with 1(2) show ?thesis
      by (subst (asm) chunk_loop.simps, subst chunks.simps, subst chunks.simps) (simp add: marks_def)
  next
    case True
    let ?c = "slice ids i (i + chunkSize)"
    let ?w1 = "send (QueryOpenAlertsIn ?c) w"
    have cs: "chunks ids i = ?c # chunks ids (i + chunkSize)"
      using True by (subst chunks.simps) simp
    show ?thesis
    proof (cases "rejected be w")
      case rej: True
      with True 1(2) show ?thesis
        by (subst (asm) chunk_loop.simps) (simp add: query_open_alerts_in_def)
    next
      case ok: False
      then have q: "query_open_alerts_in be ?c w = (Inr (open_alerts_in ?c (alerts w)), ?w1)"
        by (simp add: query_open_alerts_in_def)
      with True 1(2) have
        "chunk_loop be ids (i + chunkSize) (mark_existing (open_alerts_in ?c (alerts w)) m) ?w1 = (Inr m', w')"
        by (subst (asm) chunk_loop.simps) simp
      from 1(1) [OF True q [symmetric] refl this]
      show ?thesis by (simp add: cs marks_def send_def)
    qed
  qed
qed

lemma chunk_loop_fail:
  "k < length (chunks ids i) \<Longrightarrow> fails be (length (requests w) + k) \<Longrightarrow>
   fst (chunk_loop be ids i m w) = Inl StoreError"
proof (induction be ids i m w arbitrary: k rule: chunk_loop.induct)
  case (1 be ids i m w)
  have True: "i < length ids"
    using 1(2) by (subst (asm) chunks.simps) (simp split: if_splits)
  let ?c = "slice ids i (i + chunkSize)"
  let ?w1 = "send (QueryOpenAlertsIn ?c) w"
  have cs: "chunks ids i = ?c # chunks ids (i + chunkSize)"
    using True by (subst chunks.simps) simp
  show ?case
  proof (cases "rejected be w")
    case rej: True
    with True show ?thesis
      by (subst chunk_loop.simps) (simp add: query_open_alerts_in_def)
  next
    case ok: False
    then have q: "query_open_alerts_in be ?c w = (Inr (open_alerts_in ?c (alerts w)), ?w1)"
      by (simp add: query_open_alerts_in_def)
    from ok 1(3) obtain j where j: "k = Suc j"
      by (cases k) (auto simp: rejected_def)
    with 1(2) have j1: "j < length (chunks ids (i + chunkSize))" by (simp add: cs)
    from 1(3) j have j2: "fails be (length (requests ?w1) + j)" by simp
    from 1(1) [OF True q [symmetric] refl j1 j2]
    show ?thesis
      using True q by (subst chunk_loop.simps) simp
  qed
qed

lemma collect_alerts_ids:
  "map checkpointId (collect_alerts now_ms m docs) = filter (\<lambda>i. m i = None) (map fst docs)"
  by (induction docs) (auto simp: to_create_def)

lemma collect_alerts_subset:
  "set (collect_alerts now_ms m docs) \<subseteq> to_create now_ms ` set docs"
  by (induction docs) auto

section \<open>Write batches\<close>

lemma apply_writes_set_alerts:
  "apply_writes srv (map (\<lambda>a. SetAlert (new_alert a)) atc) w =
     Some (w\<lparr>alerts := alerts w @ map (stored_alert srv) atc\<rparr>)"
  by (induction atc arbitrary: w) (simp_all add: stored_alert_def resolve_time_def new_alert_def)

lemma stored_alert_sel [simp]:
  "alert_checkpoint_id (stored_alert srv a) = checkpointId a"
  "is_open_sla_alert (stored_alert srv a)"
  "alert_details (stored_alert srv a) =
     Some \<lparr>hours_overdue = hoursOverdue a, sla_threshold_hours = DEFAULT_MAX_GAP_HOURS\<rparr>"
  by (simp_all add: stored_alert_def new_alert_def is_open_sla_alert_def)

lemma update_doc_map:
  "distinct (map fst cps) \<Longrightarrow>
   update_doc i f cps = map (\<lambda>d. if fst d = i then (fst d, f (snd d)) else d) cps"
proof (induction cps)
  case Nil
  then show ?case by simp
next
  case (Cons d cps)
  obtain j c where d: "d = (j, c)" by (cases d)
  show ?case
  proof (cases "i = j")
    case True
    with Cons.prems d have "\<forall>e\<in>set cps. fst e \<noteq> i" by auto
    then have "map (\<lambda>d. if fst d = i then (fst d, f (snd d)) else d) cps = cps"
      by (simp add: map_idI)
    with True d show ?thesis by simp
  next
    case False
    with Cons d show ?thesis by simp
  qed
qed

lemma mark_overdue_keys [simp]: "map fst (mark_overdue srv ids cps) = map fst cps"
  by (induction cps) (simp_all add: mark_overdue_def)

lemma mark_overdue_Cons:
  "distinct (map fst cps) \<Longrightarrow>
   mark_overdue srv ids
     (update_doc i (\<lambda>c. c\<lparr>current_status := ''OVERDUE'', updated_at := Instant srv\<rparr>) cps) =
   mark_overdue srv (i # ids) cps"
  by (simp add: update_doc_map mark_overdue_def)

lemma apply_writes_status:
  "distinct (map fst (checkpoints w)) \<Longrightarrow> checkpointId ` set atc \<subseteq> fst ` set (checkpoints w) \<Longrightarrow>
   apply_writes srv (map status_update atc) w =
     Some (w\<lparr>checkpoints := mark_overdue srv (map checkpointId atc) (checkpoints w)\<rparr>)"
proof (induction atc arbitrary: w)
  case Nil
  have "mark_overdue srv [] (checkpoints w) = checkpoints w"
    by (simp add: mark_overdue_def)
  then show ?case by simp
next
  case (Cons a atc)
  let ?f = "\<lambda>c. c\<lparr>current_status := ''OVERDUE'', updated_at := Instant srv\<rparr>"
  let ?cps = "update_doc (checkpointId a) ?f (checkpoints w)"
  let ?w1 = "w\<lparr>checkpoints := ?cps\<rparr>"
  have keys: "map fst ?cps = map fst (checkpoints w)"
    using Cons.prems(1) by (simp add: update_doc_map comp_def if_distrib cong: if_cong)
  have mem: "checkpointId a \<in> fst ` set (checkpoints w)"
    using Cons.prems(2) by simp
  then have step: "apply_write srv (status_update a) w = Some ?w1"
    by (simp add: status_update_def resolve_time_def)
  have d1: "distinct (map fst (checkpoints ?w1))"
    using Cons.prems(1) keys by simp
  have "fst ` set ?cps = fst ` set (checkpoints w)"
    using keys by (metis list.set_map)
  then have s1: "checkpointId ` set atc \<subseteq> fst ` set (checkpoints ?w1)"
    using Cons.prems(2) by simp
  have "apply_writes srv (map status_update atc) ?w1 =
      Some (?w1\<lparr>checkpoints := mark_overdue srv (map checkpointId atc) (checkpoints ?w1)\<rparr>)"
    by (rule Cons.IH [OF d1 s1])
  also have "mark_overdue srv (map checkpointId atc) (checkpoints ?w1) =
      mark_overdue srv (map checkpointId (a # atc)) (checkpoints w)"
    using mark_overdue_Cons [OF Cons.prems(1), of srv "map checkpointId atc" "checkpointId a"]
    by simp
  finally show ?case
    using step by simp
qed

lemma mark_overdue_frame:
  "map (\<lambda>d. (building_id (snd d), is_active (snd d), last_cleaned_timestamp (snd d),
               last_cleaned_at (snd d))) (mark_overdue srv ids cps) =
   map (\<lambda>d. (building_id (snd d), is_active (snd d), last_cleaned_timestamp (snd d),
               last_cleaned_at (snd d))) cps"
  by (induction cps) (simp_all add: mark_overdue_def)

lemma mark_overdue_nth:
  "k < length cps \<Longrightarrow>
   current_status (snd (mark_overdue srv ids cps ! k)) =
     (if fst (cps ! k) \<in> set ids then ''OVERDUE'' else current_status (snd (cps ! k)))"
  by (simp add: mark_overdue_def)

lemma apply_write_requests: "apply_write srv x w = Some w' \<Longrightarrow> requests w' = requests w"
  by (cases x) (auto split: if_splits)

lemma apply_writes_requests: "apply_writes srv xs w = Some w' \<Longrightarrow> requests w' = requests w"
proof (induction xs arbitrary: w)
  case Nil
  then show ?case by simp
next
  case (Cons x xs)
  then show ?case
    by (auto split: option.splits dest: apply_write_requests)
qed

lemma commit_requests:
  "commit be ws w = (r, w') \<Longrightarrow> requests w' = requests w @ [CommitBatch ws]"
  by (auto simp: commit_def split: if_splits option.splits dest: apply_writes_requests)

section \<open>The outcomes of a run\<close>

lemma alerts_needed_ids:
  "map checkpointId (alerts_needed now_ms w) =
     filter (\<lambda>i. \<not> has_open_alert (alerts w) i) (map fst (overdue_docs now_ms w))"
proof -
  have "filter (\<lambda>i. marks (alerts w) (chunks (map fst (overdue_docs now_ms w)) 0) Map.empty i = None)
          (map fst (overdue_docs now_ms w)) =
        filter (\<lambda>i. \<not> has_open_alert (alerts w) i) (map fst (overdue_docs now_ms w))"
    by (rule filter_cong) (simp_all add: marks_None concat_chunks)
  then show ?thesis
    by (simp add: alerts_needed_def collect_alerts_ids)
qed

lemma alerts_needed_keys:
  "checkpointId ` set (alerts_needed now_ms w) \<subseteq> fst ` set (checkpoints w)"
proof -
  have "checkpointId ` set (alerts_needed now_ms w) = set (map checkpointId (alerts_needed now_ms w))"
    by simp
  also have "\<dots> \<subseteq> set (map fst (overdue_docs now_ms w))"
    by (simp only: alerts_needed_ids) auto
  also have "\<dots> \<subseteq> fst ` set (checkpoints w)"
    by (auto simp: overdue_docs_def)
  finally show ?thesis .
qed

lemma alerts_needed_from:
  "a \<in> set (alerts_needed now_ms w) \<Longrightarrow>
   \<exists>d\<in>set (overdue_docs now_ms w). a = to_create now_ms d \<and> \<not> has_open_alert (alerts w) (fst d)"
proof -
  assume a: "a \<in> set (alerts_needed now_ms w)"
  then obtain d where d: "d \<in> set (overdue_docs now_ms w)" "a = to_create now_ms d"
    using collect_alerts_subset by (fastforce simp: alerts_needed_def)
  from a have "checkpointId a \<in> set (map checkpointId (alerts_needed now_ms w))" by simp
  then have "\<not> has_open_alert (alerts w) (checkpointId a)"
    by (simp only: alerts_needed_ids) simp
  with d show ?thesis by (auto simp: to_create_def)
qed

lemma length_alerts_needed:
  "length (alerts_needed now_ms w) =
     length (filter (\<lambda>d. \<not> has_open_alert (alerts w) (fst d)) (overdue_docs now_ms w))"
proof -
  have "length (alerts_needed now_ms w) = length (map checkpointId (alerts_needed now_ms w))"
    by simp
  also have "\<dots> = length (filter (\<lambda>d. \<not> has_open_alert (alerts w) (fst d)) (overdue_docs now_ms w))"
    by (simp only: alerts_needed_ids filter_map length_map comp_def)
  finally show ?thesis .
qed

lemma checkSlaCompliance_cases:
  assumes run: "checkSlaCompliance be now_ms w = (r, w')"
    and dist: "distinct (map fst (checkpoints w))"
  shows
    "(r = Inl StoreError \<and> store_of w' = store_of w \<and>
        (\<exists>cs. requests w' = requests w @
                 QueryOverdueCheckpoints (thresholdTimestamp now_ms) # map QueryOpenAlertsIn cs))
   \<or> (r = Inr () \<and> alerts_needed now_ms w = [] \<and>
        w' = w\<lparr>requests := requests w @
               (if overdue_docs now_ms w = [] then [QueryOverdueCheckpoints (thresholdTimestamp now_ms)]
                else dedup_requests now_ms w)\<rparr>)
   \<or> (r = Inl StoreError \<and> alerts_needed now_ms w \<noteq> [] \<and>
        w' = w\<lparr>requests := requests w @ dedup_requests now_ms w @ [alert_batch now_ms w]\<rparr>)
   \<or> (\<exists>srv. r = Inl StoreError \<and> alerts_needed now_ms w \<noteq> [] \<and>
        w' = w\<lparr>alerts := alerts w @ map (stored_alert srv) (alerts_needed now_ms w),
               requests := requests w @ dedup_requests now_ms w @
                             [alert_batch now_ms w, status_batch now_ms w]\<rparr>)
   \<or> (\<exists>srv srv'. r = Inr () \<and> alerts_needed now_ms w \<noteq> [] \<and>
        w' = w\<lparr>checkpoints := mark_overdue srv' (map checkpointId (alerts_needed now_ms w)) (checkpoints w),
               alerts := alerts w @ map (stored_alert srv) (alerts_needed now_ms w),
               requests := requests w @ dedup_requests now_ms w @
                             [alert_batch now_ms w, status_batch now_ms w]\<rparr>)"
proof -
  let ?t = "thresholdTimestamp now_ms"
  let ?q = "QueryOverdueCheckpoints ?t"
  let ?docs = "overdue_docs now_ms w"
  let ?ids = "map fst ?docs"
  let ?w1 = "send ?q w"
  let ?atc = "alerts_needed now_ms w"
  show ?thesis
  proof (cases "rejected be w")
    case True
    with run have "r = Inl StoreError" "w' = ?w1"
      by (simp_all add: checkSlaCompliance_def query_overdue_checkpoints_def)
    then show ?thesis by (auto intro: exI [of _ "[]"])
  next
    case ok: False
    then have q: "query_overdue_checkpoints be ?t w = (Inr ?docs, ?w1)"
      by (simp add: query_overdue_checkpoints_def overdue_docs_def)
    show ?thesis
    proof (cases "?docs = []")
      case True
      with run q have "r = Inr ()" "w' = ?w1"
        by (simp_all add: checkSlaCompliance_def)
      moreover have "?atc = []"
        using True by (simp add: alerts_needed_def)
      ultimately show ?thesis
        using True by (simp add: send_def)
    next
      case docs: False
      obtain r2 w2 where cl: "chunk_loop be ?ids 0 Map.empty ?w1 = (r2, w2)"
        by (cases "chunk_loop be ?ids 0 Map.empty ?w1")
      show ?thesis
      proof (cases r2)
        case (Inl e)
        with run q docs cl have "r = Inl e" "w' = w2"
          by (simp_all add: checkSlaCompliance_def)
        moreover from chunk_loop_frame [OF cl]
        obtain cs where "store_of w2 = store_of ?w1" "requests w2 = requests ?w1 @ map QueryOpenAlertsIn cs"
          by blast
        moreover have "e = StoreError" by (cases e)
        ultimately show ?thesis by auto
      next
        case (Inr m)
        from chunk_loop_Inr [OF cl [unfolded Inr]]
        have m: "m = marks (alerts w) (chunks ?ids 0) Map.empty"
          and w2: "w2 = w\<lparr>requests := requests w @ dedup_requests now_ms w\<rparr>"
          by (simp_all add: send_def dedup_requests_def)
        have atc: "collect_alerts now_ms m ?docs = ?atc"
          by (simp add: m alerts_needed_def)
        show ?thesis
        proof (cases "?atc = []")
          case True
          with run q docs cl Inr atc have "r = Inr ()" "w' = w2"
            by (simp_all add: checkSlaCompliance_def Let_def)
          with True docs w2 show ?thesis by simp
        next
          case needed: False
          let ?A = "map (\<lambda>a. SetAlert (new_alert a)) ?atc"
          let ?S = "map status_update ?atc"
          from run q docs cl Inr atc needed
          have run': "(case commit be ?A w2 of (Inl e, w3) \<Rightarrow> (Inl e, w3)
                       | (Inr u, w3) \<Rightarrow> commit be ?S w3) = (r, w')"
            by (simp add: checkSlaCompliance_def Let_def)
          show ?thesis
          proof (cases "rejected be w2")
            case True
            with run' have "r = Inl StoreError" "w' = send (CommitBatch ?A) w2"
              by (simp_all add: commit_def)
            with needed w2 show ?thesis
              by (simp add: send_def alert_batch_def)
          next
            case ok2: False
            let ?srv = "server_time be (length (requests w2))"
            let ?w3 = "send (CommitBatch ?A) (w2\<lparr>alerts := alerts w2 @ map (stored_alert ?srv) ?atc\<rparr>)"
            have c1: "commit be ?A w2 = (Inr (), ?w3)"
              using ok2 by (simp add: commit_def apply_writes_set_alerts)
            with run' have run'': "commit be ?S ?w3 = (r, w')" by simp
            have w3: "?w3 = w\<lparr>alerts := alerts w @ map (stored_alert ?srv) ?atc,
                              requests := requests w @ dedup_requests now_ms w @ [alert_batch now_ms w]\<rparr>"
              by (simp add: w2 send_def alert_batch_def)
            show ?thesis
            proof (cases "rejected be ?w3")
              case True
              with run'' have "r = Inl StoreError" "w' = send (CommitBatch ?S) ?w3"
                by (simp_all add: commit_def)
              then have "r = Inl StoreError"
                "w' = w\<lparr>alerts := alerts w @ map (stored_alert ?srv) ?atc,
                        requests := requests w @ dedup_requests now_ms w @
                                      [alert_batch now_ms w, status_batch now_ms w]\<rparr>"
                by (simp_all add: w2 send_def alert_batch_def status_batch_def)
              with needed show ?thesis by blast
            next
              case ok3: False
              let ?srv' = "server_time be (length (requests ?w3))"
              have d3: "distinct (map fst (checkpoints ?w3))"
                using dist by (simp add: w2)
              have k3: "checkpointId ` set ?atc \<subseteq> fst ` set (checkpoints ?w3)"
                using alerts_needed_keys [of now_ms w] by (simp add: w2)
              have "apply_writes ?srv' ?S ?w3 =
                  Some (?w3\<lparr>checkpoints := mark_overdue ?srv' (map checkpointId ?atc) (checkpoints ?w3)\<rparr>)"
                by (rule apply_writes_status [OF d3 k3])
              with run'' ok3 have "r = Inr ()"
                "w' = send (CommitBatch ?S)
                        (?w3\<lparr>checkpoints := mark_overdue ?srv' (map checkpointId ?atc) (checkpoints ?w3)\<rparr>)"
                by (simp_all add: commit_def)
              then have "r = Inr ()"
                "w' = w\<lparr>checkpoints := mark_overdue ?srv' (map checkpointId ?atc) (checkpoints w),
                        alerts := alerts w @ map (stored_alert ?srv) ?atc,
                        requests := requests w @ dedup_requests now_ms w @
                                      [alert_batch now_ms w, status_batch now_ms w]\<rparr>"
                by (simp_all add: w2 send_def alert_batch_def status_batch_def)
              with needed show ?thesis by blast
            qed
          qed
        qed
      qed
    qed
  qed
qed

lemma run_new_alerts:
  assumes run: "checkSlaCompliance be now_ms w = (r, w')"
    and dist: "distinct (map fst (checkpoints w))"
  shows "\<exists>srv. drop (length (alerts w)) (alerts w') = [] \<or>
               drop (length (alerts w)) (alerts w') = map (stored_alert srv) (alerts_needed now_ms w)"
  using checkSlaCompliance_cases [OF run dist]
  by (elim disjE exE conjE) (auto simp: store_of_def)

lemma batch_sizes_append [simp]: "batch_sizes (xs @ ys) = batch_sizes xs @ batch_sizes ys"
  by (simp add: batch_sizes_def)

lemma batch_sizes_dedup [simp]: "batch_sizes (dedup_requests now_ms w) = []"
  by (simp add: batch_sizes_def dedup_requests_def comp_def)

lemma batch_sizes_single [simp]:
  "batch_sizes [alert_batch now_ms w] = [length (alerts_needed now_ms w)]"
  "batch_sizes [alert_batch now_ms w, status_batch now_ms w] =
     [length (alerts_needed now_ms w), length (alerts_needed now_ms w)]"
  "batch_sizes [QueryOverdueCheckpoints t] = []"
  by (simp_all add: batch_sizes_def alert_batch_def status_batch_def)

lemma reliable_not_rejected: "(\<And>k. \<not> fails be k) \<Longrightarrow> \<not> rejected be v"
  by (simp add: rejected_def)

lemma run_requests_reliable:
  assumes ok: "\<And>k. \<not> fails be k"
  shows "requests (snd (checkSlaCompliance be now_ms w)) =
     requests w @
       (if overdue_docs now_ms w = [] then [QueryOverdueCheckpoints (thresholdTimestamp now_ms)]
        else dedup_requests now_ms w @
             (if alerts_needed now_ms w = [] then []
              else [alert_batch now_ms w, status_batch now_ms w]))"
proof -
  let ?t = "thresholdTimestamp now_ms"
  let ?q = "QueryOverdueCheckpoints ?t"
  let ?docs = "overdue_docs now_ms w"
  let ?ids = "map fst ?docs"
  let ?w1 = "send ?q w"
  let ?atc = "alerts_needed now_ms w"
  have nr: "\<not> rejected be v" for v
    using ok by (simp add: rejected_def)
  have q: "query_overdue_checkpoints be ?t w = (Inr ?docs, ?w1)"
    using nr by (simp add: query_overdue_checkpoints_def overdue_docs_def)
  show ?thesis
  proof (cases "?docs = []")
    case True
    with q show ?thesis by (simp add: checkSlaCompliance_def)
  next
    case docs: False
    let ?m = "marks (alerts w) (chunks ?ids 0) Map.empty"
    let ?w2 = "w\<lparr>requests := requests w @ dedup_requests now_ms w\<rparr>"
    have "chunk_loop be ?ids 0 Map.empty ?w1 =
        (Inr (marks (alerts ?w1) (chunks ?ids 0) Map.empty),
         ?w1\<lparr>requests := requests ?w1 @ map QueryOpenAlertsIn (chunks ?ids 0)\<rparr>)"
      by (rule chunk_loop_ok) (rule ok)
    then have cl: "chunk_loop be ?ids 0 Map.empty ?w1 = (Inr ?m, ?w2)"
      by (simp add: send_def dedup_requests_def)
    have atc: "collect_alerts now_ms ?m ?docs = ?atc"
      by (simp add: alerts_needed_def)
    show ?thesis
    proof (cases "?atc = []")
      case True
      with q docs cl atc show ?thesis
        by (simp add: checkSlaCompliance_def Let_def)
    next
      case needed: False
      let ?A = "map (\<lambda>a. SetAlert (new_alert a)) ?atc"
      let ?S = "map status_update ?atc"
      obtain w3 where c1: "commit be ?A ?w2 = (Inr (), w3)"
        using nr by (simp add: commit_def apply_writes_set_alerts)
      obtain r4 w4 where c2: "commit be ?S w3 = (r4, w4)"
        by (cases "commit be ?S w3")
      have "checkSlaCompliance be now_ms w = (r4, w4)"
        using q docs cl atc needed c1 c2 by (simp add: checkSlaCompliance_def Let_def)
      moreover have "requests w4 = requests ?w2 @ [CommitBatch ?A, CommitBatch ?S]"
        using commit_requests [OF c1] commit_requests [OF c2] by simp
      ultimately show ?thesis
        using docs needed by (simp add: alert_batch_def status_batch_def)
    qed
  qed
qed

lemma checkSlaCompliance_reliable:
  assumes ok: "\<And>k. \<not> fails be k"
    and dist: "distinct (map fst (checkpoints w))"
  shows "fst (checkSlaCompliance be now_ms w) = Inr () \<and>
         new_alert_ids w (snd (checkSlaCompliance be now_ms w)) =
           map checkpointId (alerts_needed now_ms w)"
proof -
  let ?t = "thresholdTimestamp now_ms"
  let ?q = "QueryOverdueCheckpoints ?t"
  let ?docs = "overdue_docs now_ms w"
  let ?ids = "map fst ?docs"
  let ?w1 = "send ?q w"
  let ?atc = "alerts_needed now_ms w"
  have nr: "\<not> rejected be v" for v
    using ok by (rule reliable_not_rejected)
  have q: "query_overdue_checkpoints be ?t w = (Inr ?docs, ?w1)"
    using nr by (simp add: query_overdue_checkpoints_def overdue_docs_def)
  show ?thesis
  proof (cases "?docs = []")
    case True
    then have "?atc = []" by (simp add: alerts_needed_def)
    with q True show ?thesis
      by (simp add: checkSlaCompliance_def new_alert_ids_def)
  next
    case docs: False
    let ?m = "marks (alerts w) (chunks ?ids 0) Map.empty"
    let ?w2 = "w\<lparr>requests := requests w @ dedup_requests now_ms w\<rparr>"
    have "chunk_loop be ?ids 0 Map.empty ?w1 =
        (Inr (marks (alerts ?w1) (chunks ?ids 0) Map.empty),
         ?w1\<lparr>requests := requests ?w1 @ map QueryOpenAlertsIn (chunks ?ids 0)\<rparr>)"
      by (rule chunk_loop_ok) (rule ok)
    then have cl: "chunk_loop be ?ids 0 Map.empty ?w1 = (Inr ?m, ?w2)"
      by (simp add: send_def dedup_requests_def)
    have atc: "collect_alerts now_ms ?m ?docs = ?atc"
      by (simp add: alerts_needed_def)
    show ?thesis
    proof (cases "?atc = []")
      case True
      with q docs cl atc show ?thesis
        by (simp add: checkSlaCompliance_def Let_def new_alert_ids_def)
    next
      case needed: False
      let ?A = "map (\<lambda>a. SetAlert (new_alert a)) ?atc"
      let ?S = "map status_update ?atc"
      let ?srv = "server_time be (length (requests ?w2))"
      let ?w3 = "send (CommitBatch ?A) (?w2\<lparr>alerts := alerts ?w2 @ map (stored_alert ?srv) ?atc\<rparr>)"
      let ?srv' = "server_time be (length (requests ?w3))"
      let ?w4 = "send (CommitBatch ?S)
                   (?w3\<lparr>checkpoints := mark_overdue ?srv' (map checkpointId ?atc) (checkpoints ?w3)\<rparr>)"
      have c1: "commit be ?A ?w2 = (Inr (), ?w3)"
        using nr by (simp add: commit_def apply_writes_set_alerts)
      have d3: "distinct (map fst (checkpoints ?w3))"
        using dist by simp
      have k3: "checkpointId ` set ?atc \<subseteq> fst ` set (checkpoints ?w3)"
        using alerts_needed_keys [of now_ms w] by simp
      have "apply_writes ?srv' ?S ?w3 =
          Some (?w3\<lparr>checkpoints := mark_overdue ?srv' (map checkpointId ?atc) (checkpoints ?w3)\<rparr>)"
        by (rule apply_writes_status [OF d3 k3])
      then have c2: "commit be ?S ?w3 = (Inr (), ?w4)"
        using nr by (simp add: commit_def)
      have "checkSlaCompliance be now_ms w = (Inr (), ?w4)"
        using q docs cl atc needed c1 c2 by (simp add: checkSlaCompliance_def Let_def)
      then show ?thesis
        by (simp add: new_alert_ids_def comp_def)
    qed
  qed
qed

section \<open>Open alerts per checkpoint\<close>

lemma has_open_alert_iff:
  "has_open_alert as i = (i \<in> set (map alert_checkpoint_id (filter is_open_sla_alert as)))"
  by (auto simp: has_open_alert_def)

lemma open_count_one:
  assumes "at_most_one_open as" "has_open_alert as i"
  shows "open_count as i = 1"
proof -
  let ?xs = "map alert_checkpoint_id (filter is_open_sla_alert as)"
  have "open_count as i = length (filter (\<lambda>x. x = i) ?xs)"
    by (simp add: open_count_def filter_map comp_def conj_commute)
  also have "\<dots> = card ({x. x = i} \<inter> set ?xs)"
    using assms(1) by (simp only: at_most_one_open_def distinct_length_filter)
  also have "{x. x = i} \<inter> set ?xs = {i}"
    using assms(2) by (auto simp: has_open_alert_iff)
  finally show ?thesis by simp
qed

lemma overdue_docs_distinct:
  "distinct (map fst (checkpoints w)) \<Longrightarrow> distinct (map fst (overdue_docs now_ms w))"
  by (simp add: overdue_docs_def distinct_map_filter)

lemma alerts_needed_distinct:
  "distinct (map fst (checkpoints w)) \<Longrightarrow> distinct (map checkpointId (alerts_needed now_ms w))"
  by (simp add: alerts_needed_ids overdue_docs_distinct)

lemma new_alerts_invariant:
  assumes "distinct (map fst (checkpoints w))" "at_most_one_open (alerts w)"
  shows "at_most_one_open (alerts w @ map (stored_alert srv) (alerts_needed now_ms w))"
proof -
  let ?atc = "alerts_needed now_ms w"
  have "filter is_open_sla_alert (map (stored_alert srv) ?atc) = map (stored_alert srv) ?atc"
    by (simp add: filter_map comp_def)
  then have "map alert_checkpoint_id (filter is_open_sla_alert (alerts w @ map (stored_alert srv) ?atc)) =
      map alert_checkpoint_id (filter is_open_sla_alert (alerts w)) @ map checkpointId ?atc"
    by (simp add: comp_def)
  moreover have "set (map alert_checkpoint_id (filter is_open_sla_alert (alerts w))) \<inter>
      set (map checkpointId ?atc) = {}"
    by (simp only: alerts_needed_ids) (auto simp: has_open_alert_def)
  ultimately show ?thesis
    using assms alerts_needed_distinct [of w now_ms]
    by (simp only: at_most_one_open_def distinct_append)
qed

lemma has_open_alert_append:
  "has_open_alert (as @ bs) i = (has_open_alert as i \<or> has_open_alert bs i)"
  by (auto simp: has_open_alert_def)

lemma overdue_covered:
  assumes "d \<in> set (overdue_docs now_ms w)"
  shows "has_open_alert (alerts w @ map (stored_alert srv) (alerts_needed now_ms w)) (fst d)"
proof (cases "has_open_alert (alerts w) (fst d)")
  case True
  then show ?thesis by (simp add: has_open_alert_append)
next
  case False
  with assms have "fst d \<in> set (map checkpointId (alerts_needed now_ms w))"
    by (simp only: alerts_needed_ids) auto
  then have "has_open_alert (map (stored_alert srv) (alerts_needed now_ms w)) (fst d)"
    by (auto simp: has_open_alert_def)
  then show ?thesis by (simp add: has_open_alert_append)
qed

lemma is_overdue_mark [simp]:
  "is_overdue t (c\<lparr>current_status := s, updated_at := u\<rparr>) = is_overdue t c"
  by (simp add: is_overdue_def)

lemma overdue_ids_mark:
  "map fst (filter (\<lambda>d. is_overdue t (snd d)) (mark_overdue srv ids cps)) =
   map fst (filter (\<lambda>d. is_overdue t (snd d)) cps)"
  by (induction cps) (simp_all add: mark_overdue_def)

lemma alerts_needed_nil_iff:
  "(alerts_needed now_ms w = []) = (\<forall>d\<in>set (overdue_docs now_ms w). has_open_alert (alerts w) (fst d))"
proof -
  have "(alerts_needed now_ms w = []) = (map checkpointId (alerts_needed now_ms w) = [])"
    by simp
  also have "\<dots> = (\<forall>d\<in>set (overdue_docs now_ms w). has_open_alert (alerts w) (fst d))"
    by (simp only: alerts_needed_ids filter_empty_conv) auto
  finally show ?thesis .
qed

lemma rerun_creates_none:
  assumes covered: "\<forall>d\<in>set (overdue_docs now_ms w). has_open_alert (alerts w) (fst d)"
    and dist: "distinct (map fst (checkpoints w))"
    and run: "checkSlaCompliance be now_ms w = (r, w')"
  shows "alerts w' = alerts w \<and> checkpoints w' = checkpoints w"
proof -
  have nil: "alerts_needed now_ms w = []"
    using covered by (simp add: alerts_needed_nil_iff)
  from checkSlaCompliance_cases [OF run dist] nil
  have "store_of w' = store_of w \<or>
        w' = w\<lparr>requests := requests w @
               (if overdue_docs now_ms w = [] then [QueryOverdueCheckpoints (thresholdTimestamp now_ms)]
                else dedup_requests now_ms w)\<rparr>"
    by blast
  then show ?thesis
    by (auto simp: store_of_def)
qed

lemma overdue_docs_after:
  "map fst (overdue_docs now_ms
      (w\<lparr>checkpoints := mark_overdue srv' ids (checkpoints w), alerts := as, requests := rs\<rparr>)) =
   map fst (overdue_docs now_ms w)"
  by (simp add: overdue_docs_def overdue_ids_mark)

section \<open>Rounding of the hours\<close>

lemma round_half_even_err: "\<bar>of_int (round_half_even y) - y\<bar> \<le> 1 / 2"
proof -
  have "of_int \<lfloor>y\<rfloor> \<le> y" "y < of_int \<lfloor>y\<rfloor> + 1"
    by linarith+
  then show ?thesis
    by (auto simp: round_half_even_def Let_def)
qed

lemma binade_lower:
  assumes "0 < x"
  shows "2 powi (binade x) \<le> x"
proof -
  obtain p q where pq: "quotient_of x = (p, q)" by (cases "quotient_of x")
  then have q: "0 < q" and x: "x = of_int p / of_int q"
    by (simp_all add: quotient_of_denom_pos quotient_of_div)
  with assms have p: "0 < p"
    by (simp add: zero_less_divide_iff)
  let ?e = "bitlen p - bitlen q"
  show ?thesis
  proof (cases "2 powi ?e \<le> x")
    case True
    then show ?thesis by (simp add: binade_def pq)
  next
    case False
    have bp: "1 \<le> bitlen p" and bq: "1 \<le> bitlen q"
      using p q bitlen_eq_zero_iff [of p] bitlen_eq_zero_iff [of q] bitlen_nonneg [of p] bitlen_nonneg [of q]
      by linarith+
    have "(2::int) ^ nat (bitlen p - 1) \<le> p" using bitlen_bounds [OF p] by simp
    then have "(of_int ((2::int) ^ nat (bitlen p - 1)) :: rat) \<le> of_int p"
      by (simp only: of_int_le_iff)
    then have lp: "(2::rat) powi (bitlen p - 1) \<le> of_int p"
      using bp by (simp add: power_int_def)
    have "q < (2::int) ^ nat (bitlen q)" using bitlen_bounds [OF q] by simp
    then have "(of_int q :: rat) < of_int ((2::int) ^ nat (bitlen q))"
      by (simp only: of_int_less_iff)
    then have uq: "of_int q \<le> (2::rat) powi (bitlen q)"
      using bq by (simp add: power_int_def)
    have "(2::rat) powi (?e - 1) = 2 powi (bitlen p - 1) / 2 powi (bitlen q)"
      by (simp add: power_int_diff)
    also have "\<dots> \<le> of_int p / 2 powi (bitlen q)"
      using lp by (simp add: divide_right_mono)
    also have "\<dots> \<le> of_int p / of_int q"
      using uq p q by (simp add: divide_left_mono)
    finally have "(2::rat) powi (?e - 1) \<le> x" by (simp add: x)
    with False show ?thesis by (simp add: binade_def pq)
  qed
qed

lemma fl_err:
  assumes "0 < x"
  shows "\<bar>fl x - x\<bar> \<le> x / 2 ^ 53"
proof -
  let ?u = "(2::rat) powi (binade x - 52)"
  have u: "0 < ?u" by simp
  have "fl x = of_int (round_half_even (x / ?u)) * ?u"
    using assms by (simp add: fl_def Let_def)
  then have "fl x - x = (of_int (round_half_even (x / ?u)) - x / ?u) * ?u"
    using u by (simp add: algebra_simps)
  then have "\<bar>fl x - x\<bar> = \<bar>of_int (round_half_even (x / ?u)) - x / ?u\<bar> * ?u"
    using u by (simp add: abs_mult)
  also have "\<dots> \<le> (1 / 2) * ?u"
    using round_half_even_err [of "x / ?u"] u by (simp add: mult_right_mono)
  also have "(1 / 2) * ?u = 2 powi (binade x) / 2 ^ 53"
    by (simp add: power_int_diff)
  also have "\<dots> \<le> x / 2 ^ 53"
    using binade_lower [OF assms] by (simp add: divide_right_mono)
  finally show ?thesis .
qed

lemma toFixed2_bounds:
  assumes "0 \<le> x"
  shows "of_int (toFixed2 x) \<le> x * 100 + 1 / 2" "x * 100 - 1 / 2 < of_int (toFixed2 x)"
  using assms by (simp_all add: toFixed2_def) linarith+

lemma fl_nonneg: "0 \<le> x \<Longrightarrow> 0 \<le> fl x"
proof (cases "x = 0")
  case True
  then show ?thesis by (simp add: fl_def)
next
  case False
  assume "0 \<le> x"
  with False have x: "0 < x" by simp
  have "0 \<le> x / (2::rat) powi (binade x - 52)" using x by simp
  then have "0 \<le> round_half_even (x / 2 powi (binade x - 52))"
    by (auto simp: round_half_even_def Let_def)
  then show ?thesis
    using x by (simp add: fl_def Let_def)
qed

lemma hours_between_bound:
  assumes m0: "0 \<le> now_ms - last_ms" and m1: "now_ms - last_ms < 2 ^ 53"
  shows "\<bar>36000 * hours_between now_ms last_ms - (now_ms - last_ms)\<bar> \<le> 18000"
proof -
  define m where "m = now_ms - last_ms"
  define q :: rat where "q = of_int m / 3600000"
  define n where "n = toFixed2 (fl q)"
  have n: "hours_between now_ms last_ms = n"
    by (simp add: hours_between_def n_def q_def m_def)
  have q0: "0 \<le> q" using m0 by (simp add: q_def m_def)
  have err: "\<bar>fl q - q\<bar> < 1 / 3600000"
  proof (cases "m = 0")
    case True
    then show ?thesis by (simp add: q_def fl_def)
  next
    case False
    with m0 have "0 < q" by (simp add: q_def m_def)
    then have "\<bar>fl q - q\<bar> \<le> q / 2 ^ 53" by (rule fl_err)
    also have "\<dots> = (of_int m / 2 ^ 53) / 3600000" by (simp add: q_def)
    also have "\<dots> < 1 / 3600000"
    proof -
      have "(of_int m :: rat) < of_int (2 ^ 53)"
        using m1 unfolding m_def by (simp only: of_int_less_iff)
      then have "(of_int m :: rat) / 2 ^ 53 < 1" by simp
      then show ?thesis by (simp add: divide_strict_right_mono)
    qed
    finally show ?thesis .
  qed
  have f0: "0 \<le> fl q" using q0 by (rule fl_nonneg)
  have b1: "of_int n \<le> fl q * 100 + 1 / 2" and b2: "fl q * 100 - 1 / 2 < of_int n"
    using toFixed2_bounds [OF f0] by (simp_all add: n_def)
  have e1: "fl q - q < 1 / 3600000" and e2: "q - fl q < 1 / 3600000"
    using err by linarith+
  have qm: "3600000 * q = of_int m" by (simp add: q_def)
  have "36000 * (of_int n :: rat) < of_int m + 18001"
    using b1 e1 qm by linarith
  then have "(of_int (36000 * n) :: rat) < of_int (m + 18001)" by simp
  then have u: "36000 * n < m + 18001" by (simp only: of_int_less_iff)
  have "(of_int m :: rat) - 18001 < 36000 * of_int n"
    using b2 e2 qm by linarith
  then have "(of_int (m - 18001) :: rat) < of_int (36000 * n)" by simp
  then have l: "m - 18001 < 36000 * n" by (simp only: of_int_less_iff)
  from u l show ?thesis
    unfolding n m_def by linarith
qed

lemma hours_between_accuracy:
  assumes "0 \<le> now_ms - t" "now_ms - t < 2 ^ 53"
  shows "\<bar>of_int (hours_between now_ms t) / 100 - of_int (now_ms - t) / 3600000\<bar> \<le> (1 / 200 :: rat)"
proof -
  let ?h = "hours_between now_ms t"
  let ?m = "now_ms - t"
  from hours_between_bound [OF assms]
  have "- 18000 \<le> 36000 * ?h - ?m" "36000 * ?h - ?m \<le> 18000" by linarith+
  then have "(of_int (- 18000) :: rat) \<le> of_int (36000 * ?h - ?m)"
    "(of_int (36000 * ?h - ?m) :: rat) \<le> of_int 18000"
    by (simp_all only: of_int_le_iff)
  then have "- 18000 \<le> 36000 * (of_int ?h :: rat) - of_int ?m"
    "36000 * (of_int ?h :: rat) - of_int ?m \<le> 18000"
    by simp_all
  then show ?thesis
    by (simp add: abs_le_iff field_simps)
qed

lemma five_hours: "toFixed2 (fl (of_int 18000000 / (1000 * 60 * 60))) = 500"
  by code_simp

section \<open>The predecessor on a reliable backend\<close>

lemma open_alerts_of_empty:
  "(filter (\<lambda>a. alert_checkpoint_id a = cpId \<and> alert_status a = ''OPEN'' \<and>
               alert_type a = ''SLA_MISSING_CLEAN'') as = []) = (\<not> has_open_alert as cpId)"
  by (auto simp: filter_empty_conv has_open_alert_def is_open_sla_alert_def)

lemma naive_pending_cong:
  assumes "cleaning_logs w' = cleaning_logs w" "alerts w' = alerts w @ new"
    and "cpId \<notin> alert_checkpoint_id ` set new"
  shows "naive_pending now_ms w' cpId = naive_pending now_ms w cpId"
  using assms by (auto simp: naive_pending_def breached_def has_open_alert_def)

lemma check_checkpoint_reliable:
  assumes ok: "\<And>k. \<not> fails be k"
  shows "\<exists>w' new. check_checkpoint be toISOString now_ms bldId cpId w = (Inr (), w') \<and>
           buildings w' = buildings w \<and> checkpoints w' = checkpoints w \<and>
           cleaning_logs w' = cleaning_logs w \<and> alerts w' = alerts w @ new \<and>
           map alert_checkpoint_id new = (if naive_pending now_ms w cpId then [cpId] else [])"
proof -
  have nr: "\<not> rejected be v" for v
    using ok by (rule reliable_not_rejected)
  let ?last = "case latest_created_at cpId (cleaning_logs w) of None \<Rightarrow> 0 | Some t \<Rightarrow> t"
  let ?w1 = "send (QueryLastLog cpId) w"
  let ?w2 = "send (QueryOpenAlertsOf cpId) ?w1"
  have q1: "query_last_log be cpId w = (Inr (latest_created_at cpId (cleaning_logs w)), ?w1)"
    using nr by (simp add: query_last_log_def)
  show ?thesis
  proof (cases "breached now_ms w cpId")
    case False
    then have "check_checkpoint be toISOString now_ms bldId cpId w = (Inr (), ?w1)"
      using q1 by (simp add: check_checkpoint_def breached_def Let_def)
    with False show ?thesis
      by (simp add: naive_pending_def)
  next
    case br: True
    have q2: "query_open_alerts_of be cpId ?w1 =
        (Inr (filter (\<lambda>a. alert_checkpoint_id a = cpId \<and> alert_status a = ''OPEN'' \<and>
                             alert_type a = ''SLA_MISSING_CLEAN'') (alerts w)), ?w2)"
      using nr by (simp add: query_open_alerts_of_def)
    show ?thesis
    proof (cases "has_open_alert (alerts w) cpId")
      case True
      then have "check_checkpoint be toISOString now_ms bldId cpId w = (Inr (), ?w2)"
        using q1 q2 br by (simp add: check_checkpoint_def breached_def Let_def open_alerts_of_empty)
      with True show ?thesis
        by (simp add: naive_pending_def)
    next
      case False
      let ?a = "naive_alert toISOString bldId cpId ?last"
      let ?new = "[?a\<lparr>alert_created_at :=
                        resolve_time (server_time be (length (requests ?w2))) (alert_created_at ?a)\<rparr>]"
      have "check_checkpoint be toISOString now_ms bldId cpId w =
          (Inr (), send (AddAlert ?a) (?w2\<lparr>alerts := alerts ?w2 @ ?new\<rparr>))"
        using q1 q2 br False nr
        by (simp add: check_checkpoint_def breached_def Let_def open_alerts_of_empty add_alert_def)
      with br False show ?thesis
        by (simp add: naive_pending_def naive_alert_def)
    qed
  qed
qed

lemma check_checkpoints_reliable:
  assumes ok: "\<And>k. \<not> fails be k"
    and dist: "distinct (map fst cpDocs)"
  shows "\<exists>w' new. check_checkpoints be toISOString now_ms bldId cpDocs w = (Inr (), w') \<and>
           buildings w' = buildings w \<and> checkpoints w' = checkpoints w \<and>
           cleaning_logs w' = cleaning_logs w \<and> alerts w' = alerts w @ new \<and>
           map alert_checkpoint_id new = filter (naive_pending now_ms w) (map fst cpDocs)"
  using dist
proof (induction cpDocs arbitrary: w)
  case Nil
  then show ?case by simp
next
  case (Cons d ds)
  from check_checkpoint_reliable [of be toISOString now_ms bldId "fst d" w, OF ok]
  obtain w1 new1 where 1: "check_checkpoint be toISOString now_ms bldId (fst d) w = (Inr (), w1)"
    "buildings w1 = buildings w" "checkpoints w1 = checkpoints w"
    "cleaning_logs w1 = cleaning_logs w" "alerts w1 = alerts w @ new1"
    "map alert_checkpoint_id new1 = (if naive_pending now_ms w (fst d) then [fst d] else [])"
    by blast
  from Cons.prems have "distinct (map fst ds)" by simp
  from Cons.IH [OF this, of w1]
  obtain w2 new2 where 2: "check_checkpoints be toISOString now_ms bldId ds w1 = (Inr (), w2)"
    "buildings w2 = buildings w1" "checkpoints w2 = checkpoints w1"
    "cleaning_logs w2 = cleaning_logs w1" "alerts w2 = alerts w1 @ new2"
    "map alert_checkpoint_id new2 = filter (naive_pending now_ms w1) (map fst ds)"
    by blast
  have ids1: "alert_checkpoint_id ` set new1 \<subseteq> {fst d}"
  proof -
    have "alert_checkpoint_id ` set new1 = set (map alert_checkpoint_id new1)" by simp
    also have "\<dots> \<subseteq> {fst d}" by (simp only: 1(6)) auto
    finally show ?thesis .
  qed
  have "filter (naive_pending now_ms w1) (map fst ds) = filter (naive_pending now_ms w) (map fst ds)"
  proof (rule filter_cong [OF refl])
    fix j assume j: "j \<in> set (map fst ds)"
    from Cons.prems have "fst d \<notin> set (map fst ds)" by simp
    with j have "j \<noteq> fst d" by blast
    with ids1 have "j \<notin> alert_checkpoint_id ` set new1" by auto
    then show "naive_pending now_ms w1 j = naive_pending now_ms w j"
      using 1(4,5) by (rule naive_pending_cong [rotated 2])
  qed
  with 1 2 show ?case
    by (intro exI [of _ w2] exI [of _ "new1 @ new2"]) simp
qed

lemma check_building_reliable:
  assumes ok: "\<And>k. \<not> fails be k"
    and dist: "distinct (map fst (checkpoints w))"
  shows "\<exists>w' new. check_building be toISOString now_ms bldId w = (Inr (), w') \<and>
           buildings w' = buildings w \<and> checkpoints w' = checkpoints w \<and>
           cleaning_logs w' = cleaning_logs w \<and> alerts w' = alerts w @ new \<and>
           map alert_checkpoint_id new =
             filter (naive_pending now_ms w)
               (map fst (filter (\<lambda>d. building_id (snd d) = bldId) (checkpoints w)))"
proof -
  let ?cps = "filter (\<lambda>d. building_id (snd d) = bldId) (checkpoints w)"
  let ?w1 = "send (QueryCheckpointsOfBuilding bldId) w"
  have q: "query_checkpoints_of be bldId w = (Inr ?cps, ?w1)"
    using reliable_not_rejected [of be w, OF ok] by (simp add: query_checkpoints_of_def)
  have d: "distinct (map fst ?cps)"
    using dist by (simp add: distinct_map_filter)
  have same: "naive_pending now_ms ?w1 = naive_pending now_ms w"
    by (rule ext) (simp add: naive_pending_def breached_def)
  from check_checkpoints_reliable [of be ?cps toISOString now_ms bldId ?w1, OF ok d] q same
  show ?thesis
    by (simp add: check_building_def)
qed

lemma check_buildings_reliable:
  assumes ok: "\<And>k. \<not> fails be k"
    and dist: "distinct (map fst (checkpoints w))"
    and bs: "distinct bs"
  shows "\<exists>w' new. check_buildings be toISOString now_ms bs w = (Inr (), w') \<and>
           buildings w' = buildings w \<and> checkpoints w' = checkpoints w \<and>
           cleaning_logs w' = cleaning_logs w \<and> alerts w' = alerts w @ new \<and>
           alert_checkpoint_id ` set new =
             {fst d |d. d \<in> set (checkpoints w) \<and> building_id (snd d) \<in> set bs \<and>
                        naive_pending now_ms w (fst d)}"
  using dist bs
proof (induction bs arbitrary: w)
  case Nil
  then show ?case by simp
next
  case (Cons b bs)
  from check_building_reliable [of be w toISOString now_ms b, OF ok Cons.prems(1)]
  obtain w1 new1 where 1: "check_building be toISOString now_ms b w = (Inr (), w1)"
    "buildings w1 = buildings w" "checkpoints w1 = checkpoints w"
    "cleaning_logs w1 = cleaning_logs w" "alerts w1 = alerts w @ new1"
    "map alert_checkpoint_id new1 =
       filter (naive_pending now_ms w)
         (map fst (filter (\<lambda>d. building_id (snd d) = b) (checkpoints w)))"
    by blast
  have d1: "distinct (map fst (checkpoints w1))" using Cons.prems(1) 1(3) by simp
  have b1: "distinct bs" using Cons.prems(2) by simp
  from Cons.IH [OF d1 b1]
  obtain w2 new2 where 2: "check_buildings be toISOString now_ms bs w1 = (Inr (), w2)"
    "buildings w2 = buildings w1" "checkpoints w2 = checkpoints w1"
    "cleaning_logs w2 = cleaning_logs w1" "alerts w2 = alerts w1 @ new2"
    "alert_checkpoint_id ` set new2 =
       {fst d |d. d \<in> set (checkpoints w1) \<and> building_id (snd d) \<in> set bs \<and>
                  naive_pending now_ms w1 (fst d)}"
    by blast
  have ids1: "alert_checkpoint_id ` set new1 =
      {fst d |d. d \<in> set (checkpoints w) \<and> building_id (snd d) = b \<and> naive_pending now_ms w (fst d)}"
  proof -
    have "alert_checkpoint_id ` set new1 = set (map alert_checkpoint_id new1)" by simp
    also have "\<dots> = {fst d |d. d \<in> set (checkpoints w) \<and> building_id (snd d) = b \<and>
                                naive_pending now_ms w (fst d)}"
      by (simp only: 1(6)) force
    finally show ?thesis .
  qed
  have later: "naive_pending now_ms w1 (fst d) = naive_pending now_ms w (fst d)"
    if "d \<in> set (checkpoints w)" "building_id (snd d) \<in> set bs" for d
  proof -
    have "fst d \<notin> alert_checkpoint_id ` set new1"
    proof
      assume "fst d \<in> alert_checkpoint_id ` set new1"
      then obtain d' where d': "d' \<in> set (checkpoints w)" "building_id (snd d') = b" "fst d' = fst d"
        unfolding ids1 by auto
      from d'(1,3) that(1) Cons.prems(1) have "d' = d"
        by (metis eq_key_imp_eq_value prod.collapse)
      with d'(2) that(2) Cons.prems(2) show False by simp
    qed
    then show ?thesis
      using 1(4,5) by (rule naive_pending_cong [rotated 2])
  qed
  have ids2: "alert_checkpoint_id ` set new2 =
      {fst d |d. d \<in> set (checkpoints w) \<and> building_id (snd d) \<in> set bs \<and>
                 naive_pending now_ms w (fst d)}"
    unfolding 2(6) 1(3) using later by blast
  have "alert_checkpoint_id ` set (new1 @ new2) =
      {fst d |d. d \<in> set (checkpoints w) \<and> building_id (snd d) \<in> set (b # bs) \<and>
                 naive_pending now_ms w (fst d)}"
    unfolding set_append image_Un ids1 ids2 by auto
  with 1 2 show ?case
    by (intro exI [of _ w2] exI [of _ "new1 @ new2"]) simp
qed

lemma checkSlaCompliance_naive_reliable:
  assumes ok: "\<And>k. \<not> fails be k"
    and dist: "distinct (map fst (checkpoints w))"
    and bs: "distinct (buildings w)"
  shows "fst (checkSlaCompliance_naive be toISOString now_ms w) = Inr () \<and>
         set (new_alert_ids w (snd (checkSlaCompliance_naive be toISOString now_ms w))) =
           {fst d |d. d \<in> set (checkpoints w) \<and> building_id (snd d) \<in> set (buildings w) \<and>
                      naive_pending now_ms w (fst d)}"
proof -
  let ?w1 = "send QueryBuildings w"
  have q: "query_buildings be w = (Inr (buildings w), ?w1)"
    using reliable_not_rejected [of be w, OF ok] by (simp add: query_buildings_def)
  have same: "naive_pending now_ms ?w1 = naive_pending now_ms w"
    by (rule ext) (simp add: naive_pending_def breached_def)
  have d1: "distinct (map fst (checkpoints ?w1))" using dist by simp
  from check_buildings_reliable [of be ?w1 "buildings w" toISOString now_ms, OF ok d1 bs]
  obtain w' new where r: "check_buildings be toISOString now_ms (buildings w) ?w1 = (Inr (), w')"
    "alerts w' = alerts ?w1 @ new"
    "alert_checkpoint_id ` set new =
       {fst d |d. d \<in> set (checkpoints ?w1) \<and> building_id (snd d) \<in> set (buildings w) \<and>
                  naive_pending now_ms ?w1 (fst d)}"
    by blast
  have "checkSlaCompliance_naive be toISOString now_ms w = (Inr (), w')"
    using q r(1) by (simp add: checkSlaCompliance_naive_def)
  moreover have "set (new_alert_ids w w') = alert_checkpoint_id ` set new"
    using r(2) by (simp add: new_alert_ids_def)
  ultimately show ?thesis
    using r(3) same by simp
qed

lemma denormalized_overdue:
  assumes "denormalized w" "d \<in> set (checkpoints w)"
  shows "is_overdue (thresholdTimestamp now_ms) (snd d) = breached now_ms w (fst d)"
  using assms
  by (auto simp: denormalized_def list_all_iff is_overdue_def breached_def thresholdTimestamp_def
      thresholdDate_def DEFAULT_MAX_GAP_HOURS_def MAX_GAP_HOURS_def)

section \<open>Projection and omission of paths\<close>

declare pick_parts.simps [simp del]

lemma set_prop_obj [simp]: "set_prop (JObj t) key v = Inr (JObj (AList.update key v t))"
  by (simp add: set_prop_def)

lemma get_prop_obj [simp]: "get_prop (JObj t) key = map_of t key"
  by (simp add: get_prop_def)

lemma pick_parts_keys:
  "pick_parts source (JObj t) parts = Inr out \<Longrightarrow>
   \<exists>t'. out = JObj t' \<and> fst ` set t' \<subseteq> fst ` set t \<union> set parts"
proof (induction parts arbitrary: source t out)
  case Nil
  then show ?case by (auto simp: pick_parts.simps)
next
  case (Cons key rest)
  show ?case
  proof (cases "source = JNull")
    case True
    with Cons.prems show ?thesis by (auto simp: pick_parts.simps)
  next
    case src: False
    show ?thesis
    proof (cases "get_prop source key")
      case None
      show ?thesis
      proof (cases "rest = []")
        case True
        with Cons.prems src None show ?thesis by (auto simp: pick_parts.simps)
      next
        case False
        with Cons.prems src None have "pick_parts source (JObj t) rest = Inr out"
          by (auto simp: pick_parts.simps)
        from Cons.IH [OF this] show ?thesis by auto
      qed
    next
      case (Some v)
      show ?thesis
      proof (cases "rest = []")
        case True
        with Cons.prems src Some have "out = JObj (AList.update key v t)"
          by (auto simp: pick_parts.simps)
        then show ?thesis by (auto simp: AList.dom_update)
      next
        case False
        with Cons.prems src Some obtain inner where "out = JObj (AList.update key inner t)"
          by (auto simp: pick_parts.simps split: sum.splits)
        then show ?thesis by (auto simp: AList.dom_update)
      qed
    qed
  qed
qed

lemma pick_loop_keys:
  "pick_loop obj (JObj t) paths = Inr out \<Longrightarrow>
   \<exists>t'. out = JObj t' \<and>
     fst ` set t' \<subseteq> fst ` set t \<union> (\<Union>path\<in>set paths. set (split_on CHR ''.'' path))"
proof (induction paths arbitrary: t)
  case Nil
  then show ?case by auto
next
  case (Cons path paths)
  from Cons.prems obtain r where r: "pick_parts obj (JObj t) (split_on CHR ''.'' path) = Inr r"
    "pick_loop obj r paths = Inr out"
    by (auto split: sum.splits)
  from pick_parts_keys [OF r(1)] obtain t1 where t1: "r = JObj t1"
    "fst ` set t1 \<subseteq> fst ` set t \<union> set (split_on CHR ''.'' path)"
    by blast
  from Cons.IH [OF r(2) [unfolded t1(1)]] obtain t' where t': "out = JObj t'"
    "fst ` set t' \<subseteq> fst ` set t1 \<union> (\<Union>path\<in>set paths. set (split_on CHR ''.'' path))"
    by blast
  from t'(2) t1(2) have "fst ` set t' \<subseteq>
      fst ` set t \<union> (\<Union>path\<in>set (path # paths). set (split_on CHR ''.'' path))"
    by (simp only: set_simps UN_insert) blast
  with t'(1) show ?case by blast
qed

lemma pick_parts_cong:
  assumes "source \<noteq> JNull" "source' \<noteq> JNull"
    and "\<forall>key\<in>set parts. get_prop source key = get_prop source' key"
  shows "pick_parts source target parts = pick_parts source' target parts"
  using assms(3)
proof (induction parts)
  case Nil
  then show ?case by (simp add: pick_parts.simps)
next
  case (Cons key rest)
  then have "get_prop source key = get_prop source' key"
    and "pick_parts source target rest = pick_parts source' target rest"
    by simp_all
  with assms(1,2) show ?case
    by (simp add: pick_parts.simps split: option.splits)
qed

lemma pick_loop_cong:
  assumes "source \<noteq> JNull" "source' \<noteq> JNull"
    and "\<forall>path\<in>set paths. \<forall>key\<in>set (split_on CHR ''.'' path).
           get_prop source key = get_prop source' key"
  shows "pick_loop source result paths = pick_loop source' result paths"
  using assms(3)
proof (induction paths arbitrary: result)
  case Nil
  then show ?case by simp
next
  case (Cons path paths)
  then have "pick_parts source result (split_on CHR ''.'' path) =
      pick_parts source' result (split_on CHR ''.'' path)"
    using assms(1,2) by (intro pick_parts_cong) simp_all
  with Cons show ?case
    by (simp split: sum.splits)
qed

lemma omit_parts_frame:
  assumes "parts \<noteq> []"
  shows "\<exists>t'. omit_parts (JObj t) parts = JObj t' \<and>
           (\<forall>key. key \<noteq> hd parts \<longrightarrow> map_of t' key = map_of t key)"
proof (cases parts)
  case Nil
  with assms show ?thesis by simp
next
  case (Cons key rest)
  show ?thesis
  proof (cases rest)
    case Nil
    with Cons show ?thesis by simp
  next
    case (Cons key' rest')
    with \<open>parts = key # rest\<close> show ?thesis
      by (cases "map_of t key") (simp_all add: AList.update_conv')
  qed
qed

lemma split_on_nonempty [simp]: "split_on c s \<noteq> []"
  by (induction s) (auto split: list.splits)

lemma omitPaths_frame:
  "\<exists>t'. omitPaths (JObj t) paths = JObj t' \<and>
     (\<forall>key. key \<notin> (\<lambda>path. hd (split_on CHR ''.'' path)) ` set paths \<longrightarrow> map_of t' key = map_of t key)"
  unfolding omitPaths_def
proof (induction paths arbitrary: t)
  case Nil
  then show ?case by simp
next
  case (Cons path paths)
  from omit_parts_frame [of "split_on CHR ''.'' path" t]
  obtain t1 where t1: "omit_parts (JObj t) (split_on CHR ''.'' path) = JObj t1"
    "\<forall>key. key \<noteq> hd (split_on CHR ''.'' path) \<longrightarrow> map_of t1 key = map_of t key"
    by auto
  from Cons.IH [of t1] t1 show ?case
    by auto
qed

lemma list_all_update:
  "list_all P t \<Longrightarrow> P (k, v) \<Longrightarrow> list_all P (AList.update k v t)"
  by (induction t) auto

lemma list_all_map_of:
  "list_all P t \<Longrightarrow> map_of t k = Some v \<Longrightarrow> P (k, v)"
  by (auto simp: list_all_iff dest: map_of_SomeD)

lemma shape_step_top:
  assumes inv: "sanitized_shape (JObj t)"
    and ok: "safe_step obj [k]"
    and nn: "obj \<noteq> JNull"
    and run: "pick_parts obj (JObj t) [k] = Inr out"
  shows "sanitized_shape out"
proof (cases "get_prop obj k")
  case None
  with run nn inv show ?thesis by (auto simp: pick_parts.simps)
next
  case (Some v)
  with ok have k: "k \<in> set top_fields" "scalar v" by (simp_all add: safe_step_def)
  then have "entry_ok (k, v)"
    by (auto simp: entry_ok_def top_fields_def)
  moreover from run nn Some have "out = JObj (AList.update k v t)"
    by (auto simp: pick_parts.simps)
  ultimately show ?thesis
    using inv by (simp add: sanitized_shape_def list_all_update)
qed

lemma shape_step_nested:
  assumes inv: "sanitized_shape (JObj t)"
    and ok: "safe_step obj [a, b]"
    and nn: "obj \<noteq> JNull"
    and run: "pick_parts obj (JObj t) [a, b] = Inr out"
  shows "sanitized_shape out"
proof (cases "get_prop obj a")
  case None
  moreover from ok have "get_prop obj b = None" by (simp add: safe_step_def)
  ultimately show ?thesis
    using run nn inv by (auto simp: pick_parts.simps)
next
  case (Some v)
  define allowed where
    "allowed = (if a = ''proof_of_quality'' then quality_fields else verification_fields)"
  from ok have a: "a = ''proof_of_quality'' \<or> a = ''verification_result''"
    and b: "b \<in> set allowed"
    by (auto simp: safe_step_def allowed_def split: if_splits)
  have entry: "entry_ok (a, JObj s) = flat allowed s" for s
    using a by (auto simp: entry_ok_def allowed_def)
  define inner0 where
    "inner0 = (case get_prop (JObj t) a of None \<Rightarrow> JObj []
               | Some x \<Rightarrow> if truthy x then x else JObj [])"
  have "\<exists>s0. inner0 = JObj s0 \<and> flat allowed s0"
  proof (cases "map_of t a")
    case None
    then show ?thesis by (simp add: inner0_def flat_def)
  next
    case (Some x)
    with inv have "entry_ok (a, x)"
      by (simp add: sanitized_shape_def list_all_map_of)
    with a obtain s where "x = JObj s" "flat allowed s"
      by (auto simp: entry_ok_def allowed_def split: json.splits if_splits)
    with Some show ?thesis by (simp add: inner0_def truthy_def)
  qed
  then obtain s0 where s0: "inner0 = JObj s0" "flat allowed s0" by blast
  have "\<exists>s1. pick_parts v inner0 [b] = Inr (JObj s1) \<and> flat allowed s1"
  proof (cases "get_prop v b")
    case None
    with s0 show ?thesis by (auto simp: pick_parts.simps)
  next
    case x: (Some x)
    with ok Some have "scalar x" by (simp add: safe_step_def)
    with b s0(2) have "flat allowed (AList.update b x s0)"
      by (simp add: flat_def list_all_update)
    moreover have "v \<noteq> JNull" using x by (auto simp: get_prop_def)
    ultimately show ?thesis
      using x s0(1) by (auto simp: pick_parts.simps)
  qed
  then obtain s1 where s1: "pick_parts v inner0 [b] = Inr (JObj s1)" "flat allowed s1" by blast
  from run nn Some s1(1) have "out = JObj (AList.update a (JObj s1) t)"
    by (simp add: pick_parts.simps inner0_def)
  with inv s1(2) show ?thesis
    by (simp add: sanitized_shape_def list_all_update entry)
qed

lemma shape_step:
  assumes "sanitized_shape (JObj t)" "safe_step obj parts" "obj \<noteq> JNull"
    "pick_parts obj (JObj t) parts = Inr out"
  shows "sanitized_shape out"
proof -
  from assms(2) consider k where "parts = [k]" | a b where "parts = [a, b]"
    by (auto simp: safe_step_def split: list.splits)
  then show ?thesis
  proof cases
    case 1
    with assms show ?thesis by (auto intro: shape_step_top)
  next
    case 2
    with assms show ?thesis by (auto intro: shape_step_nested)
  qed
qed

lemma shape_loop:
  assumes "obj \<noteq> JNull"
  shows "sanitized_shape r \<Longrightarrow> list_all (\<lambda>path. safe_step obj (split_on CHR ''.'' path)) paths \<Longrightarrow>
         pick_loop obj r paths = Inr out \<Longrightarrow> sanitized_shape out"
proof (induction paths arbitrary: r)
  case Nil
  then show ?case by simp
next
  case (Cons path paths)
  from Cons.prems(1) obtain t where t: "r = JObj t"
    by (auto simp: sanitized_shape_def split: json.splits)
  from Cons.prems(3) obtain r1 where r1: "pick_parts obj r (split_on CHR ''.'' path) = Inr r1"
    "pick_loop obj r1 paths = Inr out"
    by (auto split: sum.splits)
  from Cons.prems(2) have "safe_step obj (split_on CHR ''.'' path)" by simp
  from shape_step [OF Cons.prems(1) [unfolded t] this assms r1(1) [unfolded t]]
  have "sanitized_shape r1" .
  from Cons.IH [OF this _ r1(2)] Cons.prems(2) show ?case by simp
qed

lemma safe_parts:
  "map (split_on CHR ''.'') AI_SAFE_FIELDS_cleaningLog =
     [[''id''], [''checkpoint_id''], [''building_id''], [''sync_status''], [''created_at''],
      [''proof_of_quality'', ''overall_score''], [''proof_of_quality'', ''detected_objects''],
      [''proof_of_quality'', ''ai_model_used''], [''proof_of_quality'', ''inference_time_ms''],
      [''proof_of_quality'', ''passed_validation''],
      [''verification_result'', ''status''], [''verification_result'', ''rejection_reason'']]"
  by code_simp

lemma safe_step_top:
  assumes "k \<in> set top_fields"
    and "case lookup_path obj [k] of None \<Rightarrow> True | Some v \<Rightarrow> scalar v"
  shows "safe_step obj [k]"
  using assms by (simp add: safe_step_def split: option.splits)

lemma safe_step_nested:
  assumes "if a = ''proof_of_quality'' then b \<in> set quality_fields
           else a = ''verification_result'' \<and> b \<in> set verification_fields"
    and "get_prop obj b = None"
    and "case lookup_path obj [a, b] of None \<Rightarrow> True | Some v \<Rightarrow> scalar v"
  shows "safe_step obj [a, b]"
proof (cases "get_prop obj a")
  case None
  with assms(1,2) show ?thesis by (simp add: safe_step_def)
next
  case v: (Some v)
  show ?thesis
  proof (cases "get_prop v b")
    case None
    with v assms(1,2) show ?thesis by (simp add: safe_step_def)
  next
    case (Some x)
    with v assms(3) have "scalar x" by simp
    with v Some assms(1,2) show ?thesis by (simp add: safe_step_def)
  qed
qed

lemma shaped_safe_steps:
  assumes "cleaning_log_shaped (JObj kvs)"
  shows "list_all (\<lambda>path. safe_step (JObj kvs) (split_on CHR ''.'' path)) AI_SAFE_FIELDS_cleaningLog"
proof -
  let ?ok = "\<lambda>parts. case lookup_path (JObj kvs) parts of None \<Rightarrow> True | Some v \<Rightarrow> scalar v"
  from assms have "list_all ?ok (map (split_on CHR ''.'') AI_SAFE_FIELDS_cleaningLog)"
    by (simp add: cleaning_log_shaped_def list_all_iff)
  then have leaves: "?ok [''id'']" "?ok [''checkpoint_id'']" "?ok [''building_id'']"
    "?ok [''sync_status'']" "?ok [''created_at'']"
    "?ok [''proof_of_quality'', ''overall_score'']" "?ok [''proof_of_quality'', ''detected_objects'']"
    "?ok [''proof_of_quality'', ''ai_model_used'']" "?ok [''proof_of_quality'', ''inference_time_ms'']"
    "?ok [''proof_of_quality'', ''passed_validation'']"
    "?ok [''verification_result'', ''status'']" "?ok [''verification_result'', ''rejection_reason'']"
    unfolding safe_parts by (simp_all only: list.pred_inject)
  from assms have "list_all (\<lambda>key. get_prop (JObj kvs) key = None) nested_leaf_names"
    by (simp add: cleaning_log_shaped_def)
  then have stray: "get_prop (JObj kvs) ''overall_score'' = None"
    "get_prop (JObj kvs) ''detected_objects'' = None"
    "get_prop (JObj kvs) ''ai_model_used'' = None"
    "get_prop (JObj kvs) ''inference_time_ms'' = None"
    "get_prop (JObj kvs) ''passed_validation'' = None"
    "get_prop (JObj kvs) ''status'' = None"
    "get_prop (JObj kvs) ''rejection_reason'' = None"
    unfolding nested_leaf_names_def by (simp_all only: list.pred_inject)
  have "list_all (safe_step (JObj kvs)) (map (split_on CHR ''.'') AI_SAFE_FIELDS_cleaningLog)"
    unfolding safe_parts list.pred_inject
    by (intro conjI TrueI safe_step_top safe_step_nested leaves stray)
       (simp_all add: top_fields_def quality_fields_def verification_fields_def)
  then show ?thesis
    by (simp add: list_all_iff)
qed

declare getAllPaths.simps [simp del]

lemma scalar_case [simp]: "scalar v \<Longrightarrow> (case v of JObj inner \<Rightarrow> f inner | _ \<Rightarrow> []) = []"
  by (cases v) (simp_all add: scalar_def)

lemma paths_flat:
  "flat allowed s \<Longrightarrow> prefix \<noteq> '''' \<Longrightarrow>
   set (getAllPaths s prefix) \<subseteq> (\<lambda>k. prefix @ ''.'' @ k) ` set allowed"
proof (induction s)
  case Nil
  then show ?case by (simp add: getAllPaths.simps)
next
  case (Cons d s)
  obtain k v where d: "d = (k, v)" by (cases d)
  from Cons.prems(1) have "k \<in> set allowed" "scalar v" "flat allowed s"
    by (simp_all add: flat_def d)
  with Cons.IH Cons.prems(2) show ?case
    by (auto simp: getAllPaths.simps d)
qed

lemma paths_shape:
  assumes "list_all entry_ok t"
  shows "set (getAllPaths t '''') \<subseteq>
     set top_fields \<union> {''proof_of_quality'', ''verification_result''} \<union>
     (\<lambda>k. ''proof_of_quality'' @ ''.'' @ k) ` set quality_fields \<union>
     (\<lambda>k. ''verification_result'' @ ''.'' @ k) ` set verification_fields"
proof -
  define T where "T = set top_fields \<union> {''proof_of_quality'', ''verification_result''}"
  define Q where "Q = (\<lambda>k. ''proof_of_quality'' @ ''.'' @ k) ` set quality_fields"
  define V where "V = (\<lambda>k. ''verification_result'' @ ''.'' @ k) ` set verification_fields"
  have "set (getAllPaths t '''') \<subseteq> T \<union> Q \<union> V"
    using assms
  proof (induction t)
    case Nil
    then show ?case by (simp add: getAllPaths.simps)
  next
    case (Cons d t)
    obtain k v where d: "d = (k, v)" by (cases d)
    from Cons.prems have e: "entry_ok (k, v)" and rest: "list_all entry_ok t"
      by (simp_all add: d)
    have here: "k \<in> T \<and> set (case v of JObj inner \<Rightarrow> getAllPaths inner k | _ \<Rightarrow> []) \<subseteq> Q \<union> V"
    proof (cases "k = ''proof_of_quality''")
      case True
      with e obtain s where s: "v = JObj s" "flat quality_fields s"
        by (auto simp: entry_ok_def split: json.splits)
      have "k \<noteq> ''''" by (simp add: True)
      from paths_flat [OF s(2) this] have "set (getAllPaths s k) \<subseteq> Q"
        by (simp only: Q_def True)
      moreover have "k \<in> T" by (simp add: T_def True)
      ultimately show ?thesis by (simp add: s(1) le_supI1)
    next
      case nq: False
      show ?thesis
      proof (cases "k = ''verification_result''")
        case True
        with e obtain s where s: "v = JObj s" "flat verification_fields s"
          by (auto simp: entry_ok_def split: json.splits)
        have "k \<noteq> ''''" by (simp add: True)
        from paths_flat [OF s(2) this] have "set (getAllPaths s k) \<subseteq> V"
          by (simp only: V_def True)
        moreover have "k \<in> T" by (simp add: T_def True)
        ultimately show ?thesis by (simp add: s(1) le_supI2)
      next
        case False
        with nq e have "k \<in> set top_fields" "scalar v"
          by (simp_all add: entry_ok_def)
        then show ?thesis by (simp add: T_def)
      qed
    qed
    have "getAllPaths (d # t) '''' =
        k # (case v of JObj inner \<Rightarrow> getAllPaths inner k | _ \<Rightarrow> []) @ getAllPaths t ''''"
      by (simp add: getAllPaths.simps d)
    with here Cons.IH [OF rest] show ?case
      by (simp only: set_append set_simps) blast
  qed
  then show ?thesis
    by (simp only: T_def Q_def V_def)
qed

lemma paths_prefixed:
  "prefix \<noteq> '''' \<Longrightarrow> p \<in> set (getAllPaths t prefix) \<Longrightarrow> \<exists>r. p = prefix @ ''.'' @ r"
proof (induction t prefix arbitrary: p rule: getAllPaths.induct)
  case (1 prefix)
  then show ?case by (simp add: getAllPaths.simps)
next
  case (2 key v kvs prefix)
  let ?full = "prefix @ ''.'' @ key"
  from "2.prems" consider "p = ?full"
    | inner where "v = JObj inner" "p \<in> set (getAllPaths inner ?full)"
    | "p \<in> set (getAllPaths kvs prefix)"
    by (auto simp: getAllPaths.simps Let_def split: json.splits)
  then show ?case
  proof cases
    case 1
    then show ?thesis by blast
  next
    case 2
    have full: "?full = (if prefix = '''' then key else prefix @ ''.'' @ key)"
      using "2.prems"(1) by simp
    have "?full \<noteq> ''''" by simp
    from "2.IH"(1) [OF full 2(1) this 2(2)] obtain r where "p = ?full @ ''.'' @ r"
      by blast
    then show ?thesis by simp
  next
    case 3
    from "2.IH"(2) [OF _ "2.prems"(1) 3] show ?thesis by simp
  qed
qed

lemma paths_top:
  "'''' \<notin> fst ` set t \<Longrightarrow> p \<in> set (getAllPaths t '''') \<Longrightarrow>
   p \<in> fst ` set t \<or> (\<exists>k\<in>fst ` set t. \<exists>r. p = k @ ''.'' @ r)"
proof (induction t)
  case Nil
  then show ?case by (simp add: getAllPaths.simps)
next
  case (Cons d t)
  obtain k v where d: "d = (k, v)" by (cases d)
  from Cons.prems(1) have k: "k \<noteq> ''''" and rest: "'''' \<notin> fst ` set t"
    by (auto simp: d)
  from Cons.prems(2) consider "p = k"
    | inner where "v = JObj inner" "p \<in> set (getAllPaths inner k)"
    | "p \<in> set (getAllPaths t '''')"
    by (auto simp: getAllPaths.simps d split: json.splits)
  then show ?case
  proof cases
    case 1
    then show ?thesis by (simp add: d)
  next
    case 2
    from paths_prefixed [OF k 2(2)] show ?thesis by (auto simp: d)
  next
    case 3
    from Cons.IH [OF rest 3] show ?thesis by auto
  qed
qed

lemma listed_fields:
  "set top_fields \<subseteq> set AI_SAFE_FIELDS_cleaningLog"
  "(\<lambda>k. ''proof_of_quality'' @ ''.'' @ k) ` set quality_fields \<subseteq> set AI_SAFE_FIELDS_cleaningLog"
  "(\<lambda>k. ''verification_result'' @ ''.'' @ k) ` set verification_fields \<subseteq> set AI_SAFE_FIELDS_cleaningLog"
  by (simp_all add: top_fields_def quality_fields_def verification_fields_def
      AI_SAFE_FIELDS_cleaningLog_def)

lemma shape_paths_listed:
  assumes "sanitized_shape (JObj t)"
  shows "set (getAllPaths t '''') \<subseteq>
           set AI_SAFE_FIELDS_cleaningLog \<union> {''proof_of_quality'', ''verification_result''}"
proof -
  from assms have "list_all entry_ok t" by (simp add: sanitized_shape_def)
  from paths_shape [OF this] listed_fields show ?thesis
    by (meson Un_least Un_upper1 Un_upper2 order_trans)
qed

lemma names_have_no_dot: "list_all (\<lambda>k. CHR ''.'' \<notin> set k \<and> k \<noteq> '''') sanitized_names"
  by code_simp

lemma pii_heads:
  "map (takeWhile (\<lambda>c. c \<noteq> CHR ''.'')) PII_FIELDS_cleaningLog =
     [''cleaner_id'', ''proof_of_presence'', ''proof_of_presence'']"
  "map (\<lambda>path. hd (split_on CHR ''.'' path)) PII_FIELDS_cleaningLog =
     [''cleaner_id'', ''proof_of_presence'', ''proof_of_presence'']"
  by code_simp+

lemma names_not_pii:
  "list_all (\<lambda>k. k \<notin> set PII_FIELDS_cleaningLog \<and> k \<noteq> ''cleaner_id'' \<and> k \<noteq> ''proof_of_presence'')
     sanitized_names"
  by code_simp

lemma takeWhile_head:
  "c \<notin> set k \<Longrightarrow> takeWhile (\<lambda>x. x \<noteq> c) (k @ c # r) = k"
  by (induction k) auto

lemma no_pii_path:
  assumes keys: "fst ` set t \<subseteq> set sanitized_names"
    and p: "p \<in> set (getAllPaths t '''')"
  shows "p \<notin> set PII_FIELDS_cleaningLog"
proof -
  have "'''' \<notin> fst ` set t"
    using keys names_have_no_dot by (auto simp: list_all_iff)
  from paths_top [OF this p] keys
  consider "p \<in> set sanitized_names" | k r where "k \<in> set sanitized_names" "p = k @ ''.'' @ r"
    by blast
  then show ?thesis
  proof cases
    case 1
    with names_not_pii show ?thesis by (auto simp: list_all_iff)
  next
    case 2
    from 2(1) names_have_no_dot have "CHR ''.'' \<notin> set k" by (auto simp: list_all_iff)
    then have head: "takeWhile (\<lambda>c. c \<noteq> CHR ''.'') p = k"
      using 2(2) by (simp add: takeWhile_head)
    show ?thesis
    proof
      assume "p \<in> set PII_FIELDS_cleaningLog"
      then have "takeWhile (\<lambda>c. c \<noteq> CHR ''.'') p \<in>
          set (map (takeWhile (\<lambda>c. c \<noteq> CHR ''.'')) PII_FIELDS_cleaningLog)"
        by simp
      then have "k = ''cleaner_id'' \<or> k = ''proof_of_presence''"
        unfolding pii_heads head by simp
      with 2(1) names_not_pii show False by (auto simp: list_all_iff)
    qed
  qed
qed

lemma pickPaths_keys:
  assumes "pickPaths obj AI_SAFE_FIELDS_cleaningLog = Inr sanitized"
  shows "\<exists>t. sanitized = JObj t \<and> fst ` set t \<subseteq> set sanitized_names"
proof -
  from pick_loop_keys [OF assms [unfolded pickPaths_def]] show ?thesis
    by (simp add: sanitized_names_def)
qed

lemma sanitize_cases:
  assumes "sanitizeLogForAI redactText obj = Inr out"
  shows "\<exists>t. pickPaths obj AI_SAFE_FIELDS_cleaningLog = Inr (JObj t) \<and>
           fst ` set t \<subseteq> set sanitized_names \<and>
           (out = JObj t \<or>
            (\<exists>s text. map_of t ''verification_result'' = Some (JObj s) \<and>
               out = JObj (AList.update ''verification_result''
                       (JObj (AList.update ''rejection_reason'' (JStr (redactText text)) s)) t)))"
proof -
  from assms obtain sanitized where pp: "pickPaths obj AI_SAFE_FIELDS_cleaningLog = Inr sanitized"
    by (auto simp: sanitizeLogForAI_def split: sum.splits)
  from pickPaths_keys [OF pp] obtain t where t: "sanitized = JObj t"
    "fst ` set t \<subseteq> set sanitized_names"
    by blast
  have "out = JObj t \<or>
            (\<exists>s text. map_of t ''verification_result'' = Some (JObj s) \<and>
               out = JObj (AList.update ''verification_result''
                       (JObj (AList.update ''rejection_reason'' (JStr (redactText text)) s)) t))"
  proof (cases "map_of t ''verification_result''")
    case None
    with assms pp t show ?thesis
      by (auto simp: sanitizeLogForAI_def)
  next
    case (Some vr)
    show ?thesis
    proof (cases vr)
      case (JObj s)
      with assms pp t Some show ?thesis
        by (auto simp: sanitizeLogForAI_def split: option.splits json.splits if_splits)
    qed (use assms pp t Some in \<open>auto simp: sanitizeLogForAI_def get_prop_def\<close>)
  qed
  with pp t show ?thesis by blast
qed

lemma sanitize_shape:
  assumes shaped: "cleaning_log_shaped (JObj kvs)"
    and run: "sanitizeLogForAI redactText (JObj kvs) = Inr out"
  shows "sanitized_shape out"
proof -
  from sanitize_cases [OF run] obtain t where
    pp: "pickPaths (JObj kvs) AI_SAFE_FIELDS_cleaningLog = Inr (JObj t)"
    and out: "out = JObj t \<or>
            (\<exists>s text. map_of t ''verification_result'' = Some (JObj s) \<and>
               out = JObj (AList.update ''verification_result''
                       (JObj (AList.update ''rejection_reason'' (JStr (redactText text)) s)) t))"
    by blast
  have empty: "sanitized_shape (JObj [])" by (simp add: sanitized_shape_def)
  have t: "sanitized_shape (JObj t)"
    by (rule shape_loop [OF _ empty shaped_safe_steps [OF shaped] pp [unfolded pickPaths_def]]) simp
  from out show ?thesis
  proof
    assume "out = JObj t"
    with t show ?thesis by simp
  next
    assume "\<exists>s text. map_of t ''verification_result'' = Some (JObj s) \<and>
               out = JObj (AList.update ''verification_result''
                       (JObj (AList.update ''rejection_reason'' (JStr (redactText text)) s)) t)"
    then obtain s reason where s: "map_of t ''verification_result'' = Some (JObj s)"
      and o: "out = JObj (AList.update ''verification_result''
                       (JObj (AList.update ''rejection_reason'' (JStr (redactText reason)) s)) t)"
      by blast
    from t s have "entry_ok (''verification_result'', JObj s)"
      by (simp add: sanitized_shape_def list_all_map_of)
    then have "flat verification_fields s" by (simp add: entry_ok_def)
    then have "flat verification_fields (AList.update ''rejection_reason'' (JStr (redactText reason)) s)"
      by (simp add: flat_def list_all_update verification_fields_def scalar_def)
    then have "entry_ok (''verification_result'',
        JObj (AList.update ''rejection_reason'' (JStr (redactText reason)) s))"
      by (simp add: entry_ok_def)
    with t show ?thesis
      unfolding o sanitized_shape_def json.case by (rule list_all_update)
  qed
qed

lemma sanitize_cong:
  assumes "\<forall>k\<in>set sanitized_names. map_of a k = map_of b k"
  shows "sanitizeLogForAI redactText (JObj a) = sanitizeLogForAI redactText (JObj b)"
proof -
  have "pick_loop (JObj a) (JObj []) AI_SAFE_FIELDS_cleaningLog =
      pick_loop (JObj b) (JObj []) AI_SAFE_FIELDS_cleaningLog"
    using assms by (intro pick_loop_cong) (auto simp: sanitized_names_def)
  then show ?thesis
    by (simp only: sanitizeLogForAI_def pickPaths_def)
qed

lemma omit_equal:
  assumes "omitPaths (JObj a) PII_FIELDS_cleaningLog = omitPaths (JObj b) PII_FIELDS_cleaningLog"
  shows "\<forall>k\<in>set sanitized_names. map_of a k = map_of b k"
proof
  fix k assume "k \<in> set sanitized_names"
  with names_not_pii have "k \<noteq> ''cleaner_id''" "k \<noteq> ''proof_of_presence''"
    by (auto simp: list_all_iff)
  then have "k \<notin> set (map (\<lambda>path. hd (split_on CHR ''.'' path)) PII_FIELDS_cleaningLog)"
    unfolding pii_heads(2) by simp
  then have k: "k \<notin> (\<lambda>path. hd (split_on CHR ''.'' path)) ` set PII_FIELDS_cleaningLog"
    by simp
  from omitPaths_frame [of a PII_FIELDS_cleaningLog] obtain a' where
    a': "omitPaths (JObj a) PII_FIELDS_cleaningLog = JObj a'" "map_of a' k = map_of a k"
    using k by blast
  from omitPaths_frame [of b PII_FIELDS_cleaningLog] obtain b' where
    b': "omitPaths (JObj b) PII_FIELDS_cleaningLog = JObj b'" "map_of b' k = map_of b k"
    using k by blast
  from assms a' b' show "map_of a k = map_of b k" by simp
qed

section \<open>The sample stores\<close>

declare show_digits.simps [simp del]

lemma digit_char_inj:
  assumes "0 \<le> a" "a < 10" "0 \<le> b" "b < 10" "digit_char a = digit_char b"
  shows "a = b"
proof -
  have d: "distinct ''0123456789''" by simp
  have "nat a < length ''0123456789''" "nat b < length ''0123456789''"
    using assms(2,4) by simp_all
  with d assms(5) have "nat a = nat b"
    unfolding digit_char_def by (simp only: nth_eq_iff_index_eq)
  with assms(1,3) show ?thesis by simp
qed

lemma show_digits_nonempty: "show_digits n \<noteq> []"
  by (subst show_digits.simps) simp

lemma show_digits_inj:
  "0 \<le> n \<Longrightarrow> 0 \<le> m \<Longrightarrow> show_digits n = show_digits m \<Longrightarrow> n = m"
proof (induction n arbitrary: m rule: show_digits.induct)
  case (1 n)
  show ?case
  proof (cases "n < 10")
    case small: True
    then have n: "show_digits n = [digit_char n]"
      by (subst show_digits.simps) simp
    show ?thesis
    proof (cases "m < 10")
      case True
      then have "show_digits m = [digit_char m]"
        by (subst show_digits.simps) simp
      with n "1.prems" small True show ?thesis
        by (auto intro: digit_char_inj)
    next
      case False
      then have "show_digits m = show_digits (m div 10) @ [digit_char (m mod 10)]"
        by (subst show_digits.simps) simp
      with n "1.prems"(3) show_digits_nonempty [of "m div 10"] show ?thesis
        by simp
    qed
  next
    case big: False
    then have n: "show_digits n = show_digits (n div 10) @ [digit_char (n mod 10)]"
      by (subst show_digits.simps) simp
    show ?thesis
    proof (cases "m < 10")
      case True
      then have "show_digits m = [digit_char m]"
        by (subst show_digits.simps) simp
      with n "1.prems"(3) show_digits_nonempty [of "n div 10"] show ?thesis
        by simp
    next
      case False
      then have "show_digits m = show_digits (m div 10) @ [digit_char (m mod 10)]"
        by (subst show_digits.simps) simp
      with n "1.prems"(3) have eq: "show_digits (n div 10) = show_digits (m div 10)"
        "digit_char (n mod 10) = digit_char (m mod 10)"
        by simp_all
      have "n div 10 = m div 10"
        using "1.IH" [OF big _ _ eq(1)] "1.prems"(1,2) by simp
      moreover have "n mod 10 = m mod 10"
        using eq(2) by (intro digit_char_inj) simp_all
      ultimately show ?thesis
        by (metis mult_div_mod_eq)
    qed
  qed
qed

lemma numbered_ids_distinct:
  "distinct (map (\<lambda>n. ''cp_'' @ show_digits (int n)) [0..<k])"
proof -
  have "x = y" if "show_digits (int x) = show_digits (int y)" for x y
    using show_digits_inj [of "int x" "int y"] that by simp
  then show ?thesis
    by (auto simp: distinct_map inj_on_def)
qed

lemma crowded_checkpoints:
  "checkpoints crowded = map (\<lambda>n. (''cp_'' @ show_digits (int n), demo_checkpoint 1766908800000)) [0..<501]"
  by (simp add: crowded_def del: upt_rec_numeral)

lemma crowded_distinct: "distinct (map fst (checkpoints crowded))"
  using numbered_ids_distinct [of 501]
  by (simp add: crowded_checkpoints comp_def del: upt_rec_numeral)

lemma many_docs_distinct: "distinct (map fst many_docs)"
  using numbered_ids_distinct [of 25]
  by (simp add: many_docs_def comp_def del: upt_rec_numeral)

lemma demo_checkpoint_overdue: "is_overdue (thresholdTimestamp 1766937600000) (demo_checkpoint 1766908800000)"
  by (simp add: demo_checkpoint_def is_overdue_def thresholdTimestamp_def DEFAULT_MAX_GAP_HOURS_def)

lemma crowded_overdue:
  "overdue_docs 1766937600000 crowded = checkpoints crowded"
  unfolding overdue_docs_def crowded_checkpoints
  by (rule filter_True) (auto simp: demo_checkpoint_overdue simp del: upt_rec_numeral)

lemma crowded_needed: "length (alerts_needed 1766937600000 crowded) = 501"
proof -
  have "alerts crowded = []" by (simp add: crowded_def del: upt_rec_numeral)
  then have "filter (\<lambda>d. \<not> has_open_alert (alerts crowded) (fst d)) (checkpoints crowded) = checkpoints crowded"
    by (simp add: has_open_alert_def del: upt_rec_numeral)
  then show ?thesis
    by (simp add: length_alerts_needed crowded_overdue del: upt_rec_numeral)
       (simp add: crowded_checkpoints del: upt_rec_numeral)
qed

section \<open>The claims\<close>

text \<open>
  Claim C1. If every checkpoint has at most one OPEN alert of type SLA_MISSING_CLEAN, a run of
  the watchdog, successful or not, keeps it so. The alerts it adds are OPEN alerts for
  checkpoints that had no OPEN alert in the store. After a successful run every overdue
  checkpoint has exactly one OPEN alert, and a second run at the same instant, whatever the
  backend does, creates no alert and leaves exactly one OPEN alert per overdue checkpoint.
  Document ids of the checkpoint collection are distinct.
\<close>

theorem at_most_one_open_alert_preserved:
  assumes dist: "distinct (map fst (checkpoints w))"
    and inv: "at_most_one_open (alerts w)"
    and run: "checkSlaCompliance be now_ms w = (r, w1)"
  shows "at_most_one_open (alerts w1) \<and>
    (\<exists>new. alerts w1 = alerts w @ new \<and>
       (\<forall>a\<in>set new. is_open_sla_alert a \<and> \<not> has_open_alert (alerts w) (alert_checkpoint_id a))) \<and>
    (r = Inr () \<longrightarrow>
       (\<forall>d\<in>set (overdue_docs now_ms w1). open_count (alerts w1) (fst d) = 1) \<and>
       (\<forall>be2 r2 w2. checkSlaCompliance be2 now_ms w1 = (r2, w2) \<longrightarrow>
          alerts w2 = alerts w1 \<and>
          (\<forall>d\<in>set (overdue_docs now_ms w2). open_count (alerts w2) (fst d) = 1)))"
proof -
  let ?atc = "alerts_needed now_ms w"
  have new_ok: "\<forall>a\<in>set (map (stored_alert srv) ?atc).
      is_open_sla_alert a \<and> \<not> has_open_alert (alerts w) (alert_checkpoint_id a)" for srv
  proof -
    have "\<forall>i\<in>set (map checkpointId ?atc). \<not> has_open_alert (alerts w) i"
      by (simp only: alerts_needed_ids) auto
    then show ?thesis by auto
  qed
  have alt: "(alerts w1 = alerts w \<and> checkpoints w1 = checkpoints w \<and> (r = Inr () \<longrightarrow> ?atc = []))
     \<or> (\<exists>srv. alerts w1 = alerts w @ map (stored_alert srv) ?atc \<and>
            map fst (checkpoints w1) = map fst (checkpoints w) \<and>
            map fst (overdue_docs now_ms w1) = map fst (overdue_docs now_ms w))"
    using checkSlaCompliance_cases [OF run dist]
  proof (elim disjE exE conjE, goal_cases)
    case (1 cs)
    then show ?case by (simp add: store_of_def)
  next
    case 2
    then show ?case by simp
  next
    case 3
    then show ?case by simp
  next
    case (4 srv)
    then show ?case
      by (intro disjI2 exI [of _ srv]) (simp add: overdue_docs_def)
  next
    case (5 srv srv')
    then show ?case
      by (intro disjI2 exI [of _ srv]) (simp add: overdue_docs_def overdue_ids_mark)
  qed
  then consider
    (same) "alerts w1 = alerts w" "checkpoints w1 = checkpoints w"
      "r = Inr () \<longrightarrow> ?atc = []"
  | (created) srv where "alerts w1 = alerts w @ map (stored_alert srv) ?atc"
      "map fst (checkpoints w1) = map fst (checkpoints w)"
      "map fst (overdue_docs now_ms w1) = map fst (overdue_docs now_ms w)"
    by blast
  then show ?thesis
  proof cases
    case same
    have ex: "\<exists>new. alerts w1 = alerts w @ new \<and>
       (\<forall>a\<in>set new. is_open_sla_alert a \<and> \<not> has_open_alert (alerts w) (alert_checkpoint_id a))"
      using same(1) by (intro exI [of _ "[]"]) simp
    have cov: "\<forall>d\<in>set (overdue_docs now_ms w1). has_open_alert (alerts w1) (fst d)" if "r = Inr ()"
    proof -
      have "overdue_docs now_ms w1 = overdue_docs now_ms w"
        using same(2) by (simp add: overdue_docs_def)
      moreover have "?atc = []" using same(3) that by simp
      ultimately show ?thesis
        using same(1) by (simp add: alerts_needed_nil_iff)
    qed
    have d1: "distinct (map fst (checkpoints w1))" using dist same(2) by simp
    have i1: "at_most_one_open (alerts w1)" using inv same(1) by simp
    have two: "alerts w2 = alerts w1 \<and>
          (\<forall>d\<in>set (overdue_docs now_ms w2). open_count (alerts w2) (fst d) = 1)"
      if "r = Inr ()" "checkSlaCompliance be2 now_ms w1 = (r2, w2)" for be2 r2 w2
    proof -
      from rerun_creates_none [OF cov [OF that(1)] d1 that(2)]
      have e: "alerts w2 = alerts w1" "checkpoints w2 = checkpoints w1" by simp_all
      then have "overdue_docs now_ms w2 = overdue_docs now_ms w1"
        by (simp add: overdue_docs_def)
      with e cov [OF that(1)] i1 show ?thesis
        by (simp add: open_count_one)
    qed
    have one: "\<forall>d\<in>set (overdue_docs now_ms w1). open_count (alerts w1) (fst d) = 1" if "r = Inr ()"
      using cov [OF that] i1 by (simp add: open_count_one)
    from i1 ex one two show ?thesis
      by blast
  next
    case (created srv)
    have ex: "\<exists>new. alerts w1 = alerts w @ new \<and>
       (\<forall>a\<in>set new. is_open_sla_alert a \<and> \<not> has_open_alert (alerts w) (alert_checkpoint_id a))"
      using created(1) new_ok [of srv] by blast
    have i1: "at_most_one_open (alerts w1)"
      using new_alerts_invariant [OF dist inv] created(1) by simp
    have cov: "\<forall>d\<in>set (overdue_docs now_ms w1). has_open_alert (alerts w1) (fst d)"
    proof
      fix d assume "d \<in> set (overdue_docs now_ms w1)"
      then have "fst d \<in> set (map fst (overdue_docs now_ms w1))" by simp
      then have "fst d \<in> set (map fst (overdue_docs now_ms w))"
        by (simp only: created(3))
      then obtain d' where "d' \<in> set (overdue_docs now_ms w)" "fst d' = fst d" by auto
      with overdue_covered [of d' now_ms w srv] show "has_open_alert (alerts w1) (fst d)"
        by (simp add: created(1))
    qed
    have d1: "distinct (map fst (checkpoints w1))" using dist created(2) by simp
    have two: "alerts w2 = alerts w1 \<and>
          (\<forall>d\<in>set (overdue_docs now_ms w2). open_count (alerts w2) (fst d) = 1)"
      if "checkSlaCompliance be2 now_ms w1 = (r2, w2)" for be2 r2 w2
    proof -
      from rerun_creates_none [OF cov d1 that]
      have e: "alerts w2 = alerts w1" "checkpoints w2 = checkpoints w1" by simp_all
      then have "overdue_docs now_ms w2 = overdue_docs now_ms w1"
        by (simp add: overdue_docs_def)
      with e cov i1 show ?thesis
        by (simp add: open_count_one)
    qed
    have one: "\<forall>d\<in>set (overdue_docs now_ms w1). open_count (alerts w1) (fst d) = 1"
      using cov i1 by (simp add: open_count_one)
    from i1 ex one two show ?thesis
      by blast
  qed
qed

theorem at_most_one_open_alert_preserved_witness:
  "distinct (map fst (checkpoints demo)) \<and> at_most_one_open (alerts demo) \<and>
   fst (checkSlaCompliance reliable 1766937600000 demo) = Inr () \<and>
   at_most_one_open (alerts (snd (checkSlaCompliance reliable 1766937600000 demo))) \<and>
   length (alerts (snd (checkSlaCompliance reliable 1766937600000 demo))) = 2 \<and>
   alerts (snd (checkSlaCompliance reliable 1766937600000
      (snd (checkSlaCompliance reliable 1766937600000 demo)))) =
   alerts (snd (checkSlaCompliance reliable 1766937600000 demo))"
proof -
  have h1: "distinct (map fst (checkpoints demo))" by code_simp
  have h2: "at_most_one_open (alerts demo)" by code_simp
  have h3: "fst (checkSlaCompliance reliable 1766937600000 demo) = Inr ()" by code_simp
  have h4: "length (alerts (snd (checkSlaCompliance reliable 1766937600000 demo))) = 2" by code_simp
  from at_most_one_open_alert_preserved [OF h1 h2 surjective_pairing] h3
  have "at_most_one_open (alerts (snd (checkSlaCompliance reliable 1766937600000 demo)))"
    and "\<forall>be2 r2 w2. checkSlaCompliance be2 1766937600000
            (snd (checkSlaCompliance reliable 1766937600000 demo)) = (r2, w2) \<longrightarrow>
          alerts w2 = alerts (snd (checkSlaCompliance reliable 1766937600000 demo))"
    by blast+
  with h1 h2 h3 h4 show ?thesis
    by (metis surjective_pairing)
qed

text \<open>
  Claim C2. The cutoff of a run at instant \<open>now\<close> is \<open>now\<close> minus four hours, and it is the
  cutoff of the first request the run sends. A served overdue query returns exactly the
  checkpoints that are active and whose last_cleaned_timestamp is strictly below the cutoff:
  an active checkpoint cleaned exactly at the cutoff is not overdue, one cleaned one
  millisecond earlier is.
\<close>

theorem threshold_and_overdue_query:
  "thresholdTimestamp now_ms = now_ms - 4 * 3600 * 1000 \<and>
   (\<exists>rs. requests (snd (checkSlaCompliance be now_ms w)) =
           requests w @ QueryOverdueCheckpoints (now_ms - 4 * 3600 * 1000) # rs) \<and>
   (\<not> rejected be w \<longrightarrow>
      (\<exists>docs. fst (query_overdue_checkpoints be (thresholdTimestamp now_ms) w) = Inr docs \<and>
         set docs = {d \<in> set (checkpoints w). is_active (snd d) \<and>
                       (\<exists>ts. last_cleaned_timestamp (snd d) = Some ts \<and> ts < now_ms - 4 * 3600 * 1000)})) \<and>
   \<not> is_overdue (thresholdTimestamp now_ms)
       (c\<lparr>is_active := True, last_cleaned_timestamp := Some (thresholdTimestamp now_ms)\<rparr>) \<and>
   is_overdue (thresholdTimestamp now_ms)
       (c\<lparr>is_active := True, last_cleaned_timestamp := Some (thresholdTimestamp now_ms - 1)\<rparr>)"
proof -
  have t: "thresholdTimestamp now_ms = now_ms - 4 * 3600 * 1000"
    by (simp add: thresholdTimestamp_def DEFAULT_MAX_GAP_HOURS_def)
  obtain r w' where run: "checkSlaCompliance be now_ms w = (r, w')"
    by (cases "checkSlaCompliance be now_ms w")
  have "\<exists>rs. requests w' = requests w @ QueryOverdueCheckpoints (thresholdTimestamp now_ms) # rs"
  proof (cases "rejected be w")
    case True
    with run show ?thesis
      by (auto simp: checkSlaCompliance_def query_overdue_checkpoints_def)
  next
    case False
    let ?w1 = "send (QueryOverdueCheckpoints (thresholdTimestamp now_ms)) w"
    have q: "query_overdue_checkpoints be (thresholdTimestamp now_ms) w = (Inr (overdue_docs now_ms w), ?w1)"
      using False by (simp add: query_overdue_checkpoints_def overdue_docs_def)
    obtain r2 w2 where cl: "chunk_loop be (map fst (overdue_docs now_ms w)) 0 Map.empty ?w1 = (r2, w2)"
      by (cases "chunk_loop be (map fst (overdue_docs now_ms w)) 0 Map.empty ?w1")
    from chunk_loop_frame [OF cl] obtain cs where
      w2: "requests w2 = requests w @ QueryOverdueCheckpoints (thresholdTimestamp now_ms) # map QueryOpenAlertsIn cs"
      by auto
    from run q cl w2 show ?thesis
      by (auto simp: checkSlaCompliance_def Let_def
          split: if_splits sum.splits prod.splits dest!: commit_requests)
  qed
  with run t have req: "\<exists>rs. requests (snd (checkSlaCompliance be now_ms w)) =
           requests w @ QueryOverdueCheckpoints (now_ms - 4 * 3600 * 1000) # rs"
    by simp
  have q: "\<exists>docs. fst (query_overdue_checkpoints be (thresholdTimestamp now_ms) w) = Inr docs \<and>
         set docs = {d \<in> set (checkpoints w). is_active (snd d) \<and>
                       (\<exists>ts. last_cleaned_timestamp (snd d) = Some ts \<and> ts < now_ms - 4 * 3600 * 1000)}"
    if "\<not> rejected be w"
    using that unfolding t
    by (auto simp: query_overdue_checkpoints_def is_overdue_def split: option.splits)
  from t req q show ?thesis
    by (simp add: is_overdue_def)
qed

theorem threshold_and_overdue_query_witness:
  "\<not> rejected reliable demo \<and>
   thresholdTimestamp 1766937600000 = 1766923200000 \<and>
   map fst (projr (fst (query_overdue_checkpoints reliable (thresholdTimestamp 1766937600000) demo))) =
     [''cp_001'', ''cp_002'']"
proof -
  have h: "\<not> rejected reliable demo" by code_simp
  have "map fst (projr (fst (query_overdue_checkpoints reliable (thresholdTimestamp 1766937600000) demo))) =
     [''cp_001'', ''cp_002'']" by code_simp
  with h threshold_and_overdue_query [of 1766937600000 reliable demo "demo_checkpoint 0"]
  show ?thesis by simp
qed

text \<open>
  Claim C3. For a non-empty list of \<open>n\<close> overdue checkpoints whose chunk queries are all served,
  the deduplicator sends \<open>\<lceil>n / 10\<rceil>\<close> membership queries and nothing else, each over a non-empty
  chunk of at most 10 identifiers, the chunks partitioning the identifier list in order; the
  checkpoints it keeps for alert creation are the overdue identifiers that occur in no
  chunk's result.
\<close>

theorem dedup_chunks:
  assumes ne: "docs \<noteq> []"
    and ok: "\<forall>k < (length docs + 9) div 10. \<not> fails be (length (requests w) + k)"
  shows "\<exists>cs m w'. chunk_loop be (map fst docs) 0 Map.empty w = (Inr m, w') \<and>
           store_of w' = store_of w \<and>
           requests w' = requests w @ map QueryOpenAlertsIn cs \<and>
           length cs = (length docs + 9) div 10 \<and>
           (\<forall>c\<in>set cs. c \<noteq> [] \<and> length c \<le> 10) \<and>
           concat cs = map fst docs \<and>
           map checkpointId (collect_alerts now_ms m docs) =
             filter (\<lambda>i. i \<notin> (\<Union>c\<in>set cs. alert_checkpoint_id ` set (open_alerts_in c (alerts w))))
               (map fst docs)"
proof -
  let ?ids = "map fst docs"
  let ?cs = "chunks ?ids 0"
  let ?m = "marks (alerts w) ?cs Map.empty"
  let ?w' = "w\<lparr>requests := requests w @ map QueryOpenAlertsIn ?cs\<rparr>"
  have "\<not> fails be (length (requests w) + k)" if "k < length ?cs" for k
    using ok that by (simp add: length_chunks)
  then have run: "chunk_loop be ?ids 0 Map.empty w = (Inr ?m, ?w')"
    by (rule chunk_loop_ok)
  have un: "(i \<in> (\<Union>c\<in>set ?cs. alert_checkpoint_id ` set (open_alerts_in c (alerts w)))) =
        (i \<in> set (concat ?cs) \<and> has_open_alert (alerts w) i)" for i
    by (auto simp: open_alerts_in_def has_open_alert_def)
  have "map checkpointId (collect_alerts now_ms ?m docs) =
      filter (\<lambda>i. i \<notin> (\<Union>c\<in>set ?cs. alert_checkpoint_id ` set (open_alerts_in c (alerts w)))) ?ids"
    by (simp only: collect_alerts_ids un marks_None) simp
  with run show ?thesis
    by (intro exI [of _ ?cs] exI [of _ ?m] exI [of _ ?w'])
       (simp add: store_of_def length_chunks concat_chunks chunks_bounded)
qed

theorem dedup_chunks_witness:
  "many_docs \<noteq> [] \<and> (length many_docs + 9) div 10 = 3 \<and>
   \<not> fails reliable (length (requests demo)) \<and>
   \<not> fails reliable (length (requests demo) + 1) \<and>
   \<not> fails reliable (length (requests demo) + 2) \<and>
   (\<exists>cs m w'. chunk_loop reliable (map fst many_docs) 0 Map.empty demo = (Inr m, w') \<and>
      requests w' = requests demo @ map QueryOpenAlertsIn cs \<and> length cs = 3 \<and>
      (\<forall>c\<in>set cs. length c \<le> 10) \<and> concat cs = map fst many_docs)"
proof -
  have len: "length many_docs = 25" by (simp add: many_docs_def del: upt_rec_numeral)
  then have h1: "many_docs \<noteq> []" by auto
  have f: "\<not> fails reliable k" for k by (simp add: reliable_def)
  then have h2: "\<forall>k < (length many_docs + 9) div 10. \<not> fails reliable (length (requests demo) + k)"
    by simp
  from dedup_chunks [OF h1 h2, of 1766937600000] obtain cs m w' where
    "chunk_loop reliable (map fst many_docs) 0 Map.empty demo = (Inr m, w')"
    "requests w' = requests demo @ map QueryOpenAlertsIn cs"
    "length cs = (length many_docs + 9) div 10" "\<forall>c\<in>set cs. c \<noteq> [] \<and> length c \<le> 10"
    "concat cs = map fst many_docs"
    by blast
  with len h1 f show ?thesis by auto
qed

text \<open>
  Claim C4, as amended. Every alert a run creates belongs to an overdue checkpoint of the
  store, whose last_cleaned_timestamp \<open>ts\<close> is present and below the cutoff; its details hold
  sla_threshold_hours = 4 and hours_overdue = the quotient \<open>(now - ts) / 3600000\<close> rounded to
  two decimals by \<^verbatim>\<open>toFixed(2)\<close> (hours_overdue counts hundredths): it differs from the
  exact quotient by at most 0.005 as long as \<open>now - ts < 2^53\<close>, and it is 5.00 when the
  checkpoint was cleaned five hours before \<open>now\<close>. For a document without
  last_cleaned_timestamp the alert builder takes the epoch as the last service, so
  hours_overdue then counts the hours since the epoch.
\<close>

theorem hours_overdue_rounded:
  assumes dist: "distinct (map fst (checkpoints w))"
    and run: "checkSlaCompliance be now_ms w = (r, w')"
    and new: "a \<in> set (drop (length (alerts w)) (alerts w'))"
  shows "\<exists>d ts. d \<in> set (checkpoints w) \<and> fst d = alert_checkpoint_id a \<and>
           last_cleaned_timestamp (snd d) = Some ts \<and> ts < now_ms - 4 * 3600000 \<and>
           alert_details a =
             Some \<lparr>hours_overdue = hours_between now_ms ts, sla_threshold_hours = 4\<rparr> \<and>
           (now_ms - ts < 2 ^ 53 \<longrightarrow>
              \<bar>of_int (hours_between now_ms ts) / 100 - of_int (now_ms - ts) / 3600000\<bar>
                \<le> (1 / 200 :: rat)) \<and>
           (now_ms - ts = 5 * 3600000 \<longrightarrow> hours_between now_ms ts = 500) \<and>
           (last_cleaned_timestamp (snd e) = None \<longrightarrow>
              alert_details (new_alert (to_create now_ms e)) =
                Some \<lparr>hours_overdue = hours_between now_ms 0, sla_threshold_hours = 4\<rparr>)"
proof -
  have absent: "alert_details (new_alert (to_create now_ms e)) =
      Some \<lparr>hours_overdue = hours_between now_ms 0, sla_threshold_hours = 4\<rparr>"
    if "last_cleaned_timestamp (snd e) = None"
    using that by (simp add: new_alert_def to_create_def lastCleanedMs_def DEFAULT_MAX_GAP_HOURS_def)
  from run_new_alerts [OF run dist] new obtain srv where
    "a \<in> set (map (stored_alert srv) (alerts_needed now_ms w))"
    by auto
  then obtain c where c: "c \<in> set (alerts_needed now_ms w)" "a = stored_alert srv c"
    by auto
  from alerts_needed_from [OF c(1)] obtain d where
    d: "d \<in> set (overdue_docs now_ms w)" "c = to_create now_ms d"
    by blast
  from d(1) have mem: "d \<in> set (checkpoints w)"
    and od: "is_overdue (thresholdTimestamp now_ms) (snd d)"
    by (simp_all add: overdue_docs_def)
  from od obtain ts where ts: "last_cleaned_timestamp (snd d) = Some ts"
    "ts < now_ms - 4 * 3600000"
    by (auto simp: is_overdue_def thresholdTimestamp_def DEFAULT_MAX_GAP_HOURS_def
        split: option.splits)
  have det: "alert_details a =
      Some \<lparr>hours_overdue = hours_between now_ms ts, sla_threshold_hours = 4\<rparr>"
    by (simp add: c(2) d(2) to_create_def lastCleanedMs_def ts(1) DEFAULT_MAX_GAP_HOURS_def)
  have id: "fst d = alert_checkpoint_id a"
    by (simp add: c(2) d(2) to_create_def)
  have acc: "\<bar>of_int (hours_between now_ms ts) / 100 - of_int (now_ms - ts) / 3600000\<bar>
      \<le> (1 / 200 :: rat)" if "now_ms - ts < 2 ^ 53"
    using ts(2) that by (intro hours_between_accuracy) simp_all
  have five: "hours_between now_ms ts = 500" if "now_ms - ts = 5 * 3600000"
    using that five_hours by (simp add: hours_between_def)
  from mem id ts det acc five absent show ?thesis
    by (intro exI [of _ d] exI [of _ ts]) simp
qed

theorem hours_overdue_rounded_witness:
  "distinct (map fst (checkpoints demo)) \<and>
   map alert_checkpoint_id (drop (length (alerts demo))
     (alerts (snd (checkSlaCompliance reliable 1766937600000 demo)))) = [''cp_001''] \<and>
   map alert_details (drop (length (alerts demo))
     (alerts (snd (checkSlaCompliance reliable 1766937600000 demo)))) =
     [Some \<lparr>hours_overdue = 500, sla_threshold_hours = 4\<rparr>] \<and>
   lastCleanedMs (snd (checkpoints demo ! 0)) = 1766937600000 - 5 * 3600000 \<and>
   (\<exists>d ts. d \<in> set (checkpoints demo) \<and> last_cleaned_timestamp (snd d) = Some ts \<and>
      hours_between 1766937600000 ts = 500)"
proof -
  have h1: "distinct (map fst (checkpoints demo))" by code_simp
  have h2: "map alert_checkpoint_id (drop (length (alerts demo))
     (alerts (snd (checkSlaCompliance reliable 1766937600000 demo)))) = [''cp_001'']" by code_simp
  have h3: "map alert_details (drop (length (alerts demo))
     (alerts (snd (checkSlaCompliance reliable 1766937600000 demo)))) =
     [Some \<lparr>hours_overdue = 500, sla_threshold_hours = 4\<rparr>]" by code_simp
  have h4: "lastCleanedMs (snd (checkpoints demo ! 0)) = 1766937600000 - 5 * 3600000" by code_simp
  obtain a where a: "drop (length (alerts demo))
     (alerts (snd (checkSlaCompliance reliable 1766937600000 demo))) = [a]"
    using h2 by auto
  then have mem: "a \<in> set (drop (length (alerts demo))
     (alerts (snd (checkSlaCompliance reliable 1766937600000 demo))))" by simp
  from a h3 have det: "alert_details a = Some \<lparr>hours_overdue = 500, sla_threshold_hours = 4\<rparr>"
    by simp
  from hours_overdue_rounded [OF h1 surjective_pairing mem, of "(''cp_000'', demo_checkpoint 0)"]
  obtain d ts where d: "d \<in> set (checkpoints demo)" "last_cleaned_timestamp (snd d) = Some ts"
    "alert_details a =
       Some \<lparr>hours_overdue = hours_between 1766937600000 ts, sla_threshold_hours = 4\<rparr>"
    by blast
  from d(3) det have "hours_between 1766937600000 ts = 500" by simp
  with d have "\<exists>d ts. d \<in> set (checkpoints demo) \<and> last_cleaned_timestamp (snd d) = Some ts \<and>
      hours_between 1766937600000 ts = 500"
    by blast
  with h1 h2 h3 h4 show ?thesis by blast
qed

text \<open>
  The exact quotient is not what is stored: for a checkpoint cleaned four hours and one
  millisecond before the run the alert holds 4.00, and \<open>14400001 / 3600000\<close> is not 4.
\<close>

theorem hours_overdue_exact_counterexample:
  "map alert_details (alerts (snd (checkSlaCompliance reliable 1766937600001 late))) =
     [Some \<lparr>hours_overdue = 400, sla_threshold_hours = 4\<rparr>] \<and>
   map (\<lambda>d. last_cleaned_timestamp (snd d)) (checkpoints late) = [Some 1766923200000] \<and>
   (400 / 100 :: rat) \<noteq> (1766937600001 - 1766923200000) / (3600 * 1000)"
  by code_simp

text \<open>
  Claim C5, as amended. The run writes all new alert records in one batch with one set
  operation per alert, whatever their number \<open>n\<close>: the batches a run commits have sizes
  \<open>[]\<close>, \<open>[n]\<close> or \<open>[n, n]\<close>, where \<open>n\<close> is the number of overdue checkpoints without an OPEN
  alert; whenever alerts were created, all \<open>n\<close> were created by the first batch; a successful
  run with \<open>n > 0\<close> commits exactly two batches of \<open>n\<close> operations, the alerts and then the
  status updates.
\<close>

theorem alerts_written_in_one_batch:
  assumes dist: "distinct (map fst (checkpoints w))"
    and run: "checkSlaCompliance be now_ms w = (r, w')"
    and n: "n = length (filter (\<lambda>d. \<not> has_open_alert (alerts w) (fst d)) (overdue_docs now_ms w))"
  shows "(batch_sizes (drop (length (requests w)) (requests w')) = [] \<or>
          batch_sizes (drop (length (requests w)) (requests w')) = [n] \<or>
          batch_sizes (drop (length (requests w)) (requests w')) = [n, n]) \<and>
         (alerts w' \<noteq> alerts w \<longrightarrow>
            length (alerts w') = length (alerts w) + n \<and>
            hd (batch_sizes (drop (length (requests w)) (requests w'))) = n) \<and>
         (r = Inr () \<and> 0 < n \<longrightarrow>
            batch_sizes (drop (length (requests w)) (requests w')) = [n, n] \<and>
            length (alerts w') = length (alerts w) + n)"
proof -
  have n': "length (alerts_needed now_ms w) = n"
    by (simp add: n length_alerts_needed)
  from checkSlaCompliance_cases [OF run dist] show ?thesis
  proof (elim disjE exE conjE, goal_cases)
    case (1 cs)
    then have "alerts w' = alerts w" "batch_sizes (drop (length (requests w)) (requests w')) = []"
      by (simp_all add: store_of_def batch_sizes_def comp_def)
    with 1 show ?case by simp
  next
    case 2
    with n' show ?case by simp
  next
    case 3
    with n' show ?case by simp
  next
    case (4 srv)
    with n' show ?case by simp
  next
    case (5 srv srv')
    with n' show ?case by simp
  qed
qed

theorem alerts_written_in_one_batch_witness:
  "distinct (map fst (checkpoints demo)) \<and>
   fst (checkSlaCompliance reliable 1766937600000 demo) = Inr () \<and>
   (1::nat) = length (filter (\<lambda>d. \<not> has_open_alert (alerts demo) (fst d)) (overdue_docs 1766937600000 demo)) \<and>
   batch_sizes (drop (length (requests demo)) (requests (snd (checkSlaCompliance reliable 1766937600000 demo)))) = [1, 1]"
proof -
  have h1: "distinct (map fst (checkpoints demo))" by code_simp
  have h2: "(1::nat) = length (filter (\<lambda>d. \<not> has_open_alert (alerts demo) (fst d)) (overdue_docs 1766937600000 demo))"
    by code_simp
  have h3: "fst (checkSlaCompliance reliable 1766937600000 demo) = Inr ()" by code_simp
  from alerts_written_in_one_batch [OF h1 surjective_pairing h2] h1 h2 h3 show ?thesis by simp
qed

text \<open>
  There is no ceiling of 500 operations: with 501 overdue checkpoints and no alert in the
  store, a run on a backend that serves every request commits one batch of 501 alert writes
  and one batch of 501 status updates.
\<close>

theorem oversize_batch_counterexample:
  "distinct (map fst (checkpoints crowded)) \<and>
   length (alerts crowded) = 0 \<and>
   fst (checkSlaCompliance reliable 1766937600000 crowded) = Inr () \<and>
   length (alerts (snd (checkSlaCompliance reliable 1766937600000 crowded))) = 501 \<and>
   batch_sizes (requests (snd (checkSlaCompliance reliable 1766937600000 crowded))) = [501, 501]"
proof -
  have ok: "\<not> fails reliable k" for k by (simp add: reliable_def)
  have n: "length (alerts_needed 1766937600000 crowded) = 501" by (rule crowded_needed)
  then have ne: "alerts_needed 1766937600000 crowded \<noteq> []" by auto
  then have docs: "overdue_docs 1766937600000 crowded \<noteq> []"
    by (auto simp: alerts_needed_def)
  have rq: "requests crowded = []" and al: "alerts crowded = []"
    by (simp_all add: crowded_def del: upt_rec_numeral)
  have sizes: "batch_sizes (requests (snd (checkSlaCompliance reliable 1766937600000 crowded))) = [501, 501]"
    using n ne docs rq
    by (simp add: run_requests_reliable [of reliable, OF ok] del: upt_rec_numeral)
  from checkSlaCompliance_reliable [of reliable crowded 1766937600000, OF ok crowded_distinct]
  have r: "fst (checkSlaCompliance reliable 1766937600000 crowded) = Inr ()"
    and ids: "new_alert_ids crowded (snd (checkSlaCompliance reliable 1766937600000 crowded)) =
           map checkpointId (alerts_needed 1766937600000 crowded)"
    by simp_all
  from ids have "length (drop (length (alerts crowded))
      (alerts (snd (checkSlaCompliance reliable 1766937600000 crowded)))) = 501"
    unfolding new_alert_ids_def using n by (metis length_map)
  with al have len: "length (alerts (snd (checkSlaCompliance reliable 1766937600000 crowded))) = 501"
    by simp
  from crowded_distinct al r len sizes show ?thesis by simp
qed

text \<open>
  Claim C6. If the overdue query (request 0 of the run) or one of the \<open>\<lceil>n / 10\<rceil>\<close> chunk
  queries that follow it fails, the invocation fails with that error, the store is unchanged
  and every request the run has sent is a query: no write was issued.
\<close>

theorem query_failure_aborts_before_writes:
  assumes k: "k \<le> (length (overdue_docs now_ms w) + 9) div 10"
    and f: "fails be (length (requests w) + k)"
  shows "fst (checkSlaCompliance be now_ms w) = Inl StoreError \<and>
         store_of (snd (checkSlaCompliance be now_ms w)) = store_of w \<and>
         (\<forall>r\<in>set (drop (length (requests w)) (requests (snd (checkSlaCompliance be now_ms w)))).
            is_query r)"
proof -
  let ?t = "thresholdTimestamp now_ms"
  let ?q = "QueryOverdueCheckpoints ?t"
  let ?w1 = "send ?q w"
  let ?ids = "map fst (overdue_docs now_ms w)"
  show ?thesis
  proof (cases "rejected be w")
    case True
    then have "checkSlaCompliance be now_ms w = (Inl StoreError, ?w1)"
      by (simp add: checkSlaCompliance_def query_overdue_checkpoints_def)
    then show ?thesis by (simp add: is_query_def)
  next
    case False
    with f obtain j where j: "k = Suc j"
      by (cases k) (auto simp: rejected_def)
    have q: "query_overdue_checkpoints be ?t w = (Inr (overdue_docs now_ms w), ?w1)"
      using False by (simp add: query_overdue_checkpoints_def overdue_docs_def)
    have j1: "j < length (chunks ?ids 0)"
      using k j by (simp add: length_chunks)
    then have ne: "overdue_docs now_ms w \<noteq> []"
      by (auto simp: length_chunks)
    have j2: "fails be (length (requests ?w1) + j)"
      using f j by simp
    obtain r2 w2 where cl: "chunk_loop be ?ids 0 Map.empty ?w1 = (r2, w2)"
      by (cases "chunk_loop be ?ids 0 Map.empty ?w1")
    from chunk_loop_fail [OF j1 j2, of Map.empty] cl have r2: "r2 = Inl StoreError"
      by simp
    from chunk_loop_frame [OF cl] obtain cs where
      w2: "store_of w2 = store_of w" "requests w2 = requests w @ ?q # map QueryOpenAlertsIn cs"
      by auto
    have "checkSlaCompliance be now_ms w = (Inl StoreError, w2)"
      using q ne cl r2 by (simp add: checkSlaCompliance_def)
    with w2 show ?thesis
      by (auto simp: is_query_def)
  qed
qed

theorem query_failure_aborts_before_writes_witness:
  "(1::nat) \<le> (length (overdue_docs 1766937600000 demo) + 9) div 10 \<and>
   fails (flaky 1) (length (requests demo) + 1) \<and>
   fst (checkSlaCompliance (flaky 1) 1766937600000 demo) = Inl StoreError \<and>
   store_of (snd (checkSlaCompliance (flaky 1) 1766937600000 demo)) = store_of demo"
proof -
  have h1: "(1::nat) \<le> (length (overdue_docs 1766937600000 demo) + 9) div 10" by code_simp
  have h2: "fails (flaky 1) (length (requests demo) + 1)" by code_simp
  from query_failure_aborts_before_writes [OF h1 h2] h1 h2 show ?thesis by simp
qed

text \<open>
  Claim C7. When the overdue query is served and returns no checkpoint, the invocation succeeds,
  the overdue query is the only request it sent, and the store is unchanged.
\<close>

theorem empty_overdue_short_circuit:
  assumes "query_overdue_checkpoints be (thresholdTimestamp now_ms) w = (Inr [], w1)"
  shows "checkSlaCompliance be now_ms w = (Inr (), w1) \<and>
         store_of w1 = store_of w \<and>
         requests w1 = requests w @ [QueryOverdueCheckpoints (thresholdTimestamp now_ms)]"
proof -
  from assms have "w1 = send (QueryOverdueCheckpoints (thresholdTimestamp now_ms)) w"
    by (auto simp: query_overdue_checkpoints_def split: if_splits)
  with assms show ?thesis
    by (simp add: checkSlaCompliance_def)
qed

theorem empty_overdue_short_circuit_witness:
  "query_overdue_checkpoints reliable (thresholdTimestamp 1766937600000) quiet =
     (Inr [], send (QueryOverdueCheckpoints (thresholdTimestamp 1766937600000)) quiet) \<and>
   checkSlaCompliance reliable 1766937600000 quiet =
     (Inr (), send (QueryOverdueCheckpoints (thresholdTimestamp 1766937600000)) quiet)"
proof -
  have h: "query_overdue_checkpoints reliable (thresholdTimestamp 1766937600000) quiet =
     (Inr [], send (QueryOverdueCheckpoints (thresholdTimestamp 1766937600000)) quiet)"
    by (simp add: query_overdue_checkpoints_def rejected_def reliable_def quiet_def demo_def
        demo_checkpoint_def is_overdue_def thresholdTimestamp_def DEFAULT_MAX_GAP_HOURS_def)
  from empty_overdue_short_circuit [OF h] h show ?thesis by simp
qed

text \<open>
  Claim C8. A run neither deletes nor adds a checkpoint document and changes no
  building_id, is_active, last_cleaned_timestamp or last_cleaned_at. After a successful run
  the current_status of a checkpoint is OVERDUE if the run created an alert for it, and is
  what it was before otherwise.
\<close>

theorem status_update_frame:
  assumes dist: "distinct (map fst (checkpoints w))"
    and run: "checkSlaCompliance be now_ms w = (r, w')"
  shows "map fst (checkpoints w') = map fst (checkpoints w) \<and>
    map (\<lambda>d. (building_id (snd d), is_active (snd d), last_cleaned_timestamp (snd d),
                last_cleaned_at (snd d))) (checkpoints w') =
    map (\<lambda>d. (building_id (snd d), is_active (snd d), last_cleaned_timestamp (snd d),
                last_cleaned_at (snd d))) (checkpoints w) \<and>
    (r = Inr () \<longrightarrow>
       (\<forall>k < length (checkpoints w).
          current_status (snd (checkpoints w' ! k)) =
            (if fst (checkpoints w ! k) \<in>
                  alert_checkpoint_id ` set (drop (length (alerts w)) (alerts w'))
             then ''OVERDUE'' else current_status (snd (checkpoints w ! k)))))"
  using checkSlaCompliance_cases [OF run dist]
proof (elim disjE exE conjE, goal_cases)
  case (1 cs)
  then show ?case by (simp add: store_of_def)
next
  case 2
  then show ?case by simp
next
  case 3
  then show ?case by simp
next
  case (4 srv)
  then show ?case by simp
next
  case (5 srv srv')
  have "alert_checkpoint_id ` set (map (stored_alert srv) (alerts_needed now_ms w)) =
        set (map checkpointId (alerts_needed now_ms w))"
    by (simp add: image_image)
  with 5 show ?case
    by (simp add: mark_overdue_frame mark_overdue_nth del: set_map)
qed

theorem status_update_frame_witness:
  "distinct (map fst (checkpoints demo)) \<and>
   fst (checkSlaCompliance reliable 1766937600000 demo) = Inr () \<and>
   map fst (checkpoints (snd (checkSlaCompliance reliable 1766937600000 demo))) =
     map fst (checkpoints demo) \<and>
   map (\<lambda>d. current_status (snd d)) (checkpoints (snd (checkSlaCompliance reliable 1766937600000 demo))) =
     [''OVERDUE'', ''CLEAN'', ''CLEAN'', ''CLEAN'']"
proof -
  have h1: "distinct (map fst (checkpoints demo))" by code_simp
  have h3: "fst (checkSlaCompliance reliable 1766937600000 demo) = Inr ()" by code_simp
  have h4: "map (\<lambda>d. current_status (snd d)) (checkpoints (snd (checkSlaCompliance reliable 1766937600000 demo))) =
     [''OVERDUE'', ''CLEAN'', ''CLEAN'', ''CLEAN'']" by code_simp
  from status_update_frame [OF h1 surjective_pairing] h1 h3 h4 show ?thesis by blast
qed

text \<open>
  Claim C9, as amended. Let every checkpoint be active, with last_cleaned_timestamp equal to
  the created_at of its latest cleaning log (the epoch when it has none), and let every
  checkpoint's building_id name an existing building document. Then, run at the same instant
  on the same store with backends that serve every request, the nested-loop watchdog and the
  single-query watchdog both succeed and create alerts for the same set of checkpoints.
  Document ids of buildings and of checkpoints are distinct.
\<close>

theorem naive_and_optimized_agree:
  assumes ok: "\<And>k. \<not> fails be k" and ok': "\<And>k. \<not> fails be' k"
    and dist: "distinct (map fst (checkpoints w))"
    and bs: "distinct (buildings w)"
    and den: "denormalized w"
    and housed: "housed w"
  shows "fst (checkSlaCompliance_naive be' toISOString now_ms w) = Inr () \<and>
         fst (checkSlaCompliance be now_ms w) = Inr () \<and>
         set (new_alert_ids w (snd (checkSlaCompliance_naive be' toISOString now_ms w))) =
         set (new_alert_ids w (snd (checkSlaCompliance be now_ms w)))"
proof -
  have "set (new_alert_ids w (snd (checkSlaCompliance be now_ms w))) =
      set (filter (\<lambda>i. \<not> has_open_alert (alerts w) i) (map fst (overdue_docs now_ms w)))"
    using checkSlaCompliance_reliable [of be w now_ms, OF ok dist]
    by (simp only: alerts_needed_ids)
  also have "\<dots> = {fst d |d. d \<in> set (checkpoints w) \<and>
                       is_overdue (thresholdTimestamp now_ms) (snd d) \<and>
                       \<not> has_open_alert (alerts w) (fst d)}"
    by (force simp: overdue_docs_def)
  also have "\<dots> = {fst d |d. d \<in> set (checkpoints w) \<and> building_id (snd d) \<in> set (buildings w) \<and>
                       naive_pending now_ms w (fst d)}"
  proof -
    have "(d \<in> set (checkpoints w) \<and> is_overdue (thresholdTimestamp now_ms) (snd d) \<and>
           \<not> has_open_alert (alerts w) (fst d)) =
          (d \<in> set (checkpoints w) \<and> building_id (snd d) \<in> set (buildings w) \<and>
           naive_pending now_ms w (fst d))" for d
      using denormalized_overdue [OF den, of d now_ms] housed
      by (auto simp: naive_pending_def housed_def list_all_iff)
    then show ?thesis by simp
  qed
  finally show ?thesis
    using checkSlaCompliance_naive_reliable [of be' w toISOString now_ms, OF ok' dist bs]
      checkSlaCompliance_reliable [of be w now_ms, OF ok dist]
    by simp
qed

theorem naive_and_optimized_agree_witness:
  "\<not> fails reliable 0 \<and> distinct (map fst (checkpoints logged)) \<and> distinct (buildings logged) \<and>
   denormalized logged \<and> housed logged \<and>
   set (new_alert_ids logged (snd (checkSlaCompliance_naive reliable millis_label 1766937600000 logged))) =
   set (new_alert_ids logged (snd (checkSlaCompliance reliable 1766937600000 logged))) \<and>
   new_alert_ids logged (snd (checkSlaCompliance reliable 1766937600000 logged)) =
     [''cp_001'', ''cp_002'']"
proof -
  have ok: "\<not> fails reliable k" for k by (simp add: reliable_def)
  have h1: "distinct (map fst (checkpoints logged))" by code_simp
  have h2: "distinct (buildings logged)" by code_simp
  have h3: "denormalized logged" by code_simp
  have h4: "housed logged" by code_simp
  have h5: "new_alert_ids logged (snd (checkSlaCompliance reliable 1766937600000 logged)) =
     [''cp_001'', ''cp_002'']" by code_simp
  from naive_and_optimized_agree [of reliable reliable logged millis_label 1766937600000,
      OF ok ok h1 h2 h3 h4] ok h1 h2 h3 h4 h5
  show ?thesis by simp
qed

text \<open>
  Without the condition on the buildings the two versions differ: a store with one active
  checkpoint, never cleaned, and no building document satisfies the precondition on the
  timestamps; the nested loops visit no checkpoint, the single query flags it.
\<close>

theorem orphan_checkpoint_counterexample:
  "denormalized orphaned \<and> distinct (map fst (checkpoints orphaned)) \<and>
   distinct (buildings orphaned) \<and>
   new_alert_ids orphaned
     (snd (checkSlaCompliance_naive reliable millis_label 1766937600000 orphaned)) = [] \<and>
   new_alert_ids orphaned (snd (checkSlaCompliance reliable 1766937600000 orphaned)) = [''cp_001'']"
  by code_simp

text \<open>
  Claim C10. Whenever \<^verbatim>\<open>sanitizeLogForAI\<close> returns, its result is an object without the keys
  cleaner_id and proof_of_presence, none of whose paths (as \<^verbatim>\<open>getAllPaths\<close> lists them) is a
  path of \<^verbatim>\<open>PII_FIELDS.cleaningLog\<close>; for a record shaped like a cleaning log every path of
  the result is a path of \<^verbatim>\<open>AI_SAFE_FIELDS.cleaningLog\<close> or one of its two containers. Two
  logs that differ only in the PII fields, that is, that are equal once \<^verbatim>\<open>omitPaths\<close> has
  removed the paths of \<^verbatim>\<open>PII_FIELDS.cleaningLog\<close>, have the same result (the same value or
  the same error).
\<close>

theorem sanitized_log_has_no_pii:
  "(sanitizeLogForAI redactText (JObj kvs) = Inr out \<longrightarrow>
      (\<exists>okvs. out = JObj okvs \<and>
         ''cleaner_id'' \<notin> fst ` set okvs \<and> ''proof_of_presence'' \<notin> fst ` set okvs \<and>
         set (getAllPaths okvs '''') \<inter> set PII_FIELDS_cleaningLog = {} \<and>
         (cleaning_log_shaped (JObj kvs) \<longrightarrow>
            set (getAllPaths okvs '''') \<subseteq>
              set AI_SAFE_FIELDS_cleaningLog \<union> {''proof_of_quality'', ''verification_result''}))) \<and>
   (omitPaths (JObj kvs) PII_FIELDS_cleaningLog = omitPaths (JObj kvs') PII_FIELDS_cleaningLog \<longrightarrow>
      sanitizeLogForAI redactText (JObj kvs) = sanitizeLogForAI redactText (JObj kvs'))"
proof (intro conjI impI)
  assume run: "sanitizeLogForAI redactText (JObj kvs) = Inr out"
  from sanitize_cases [OF run] obtain t where
    t: "fst ` set t \<subseteq> set sanitized_names"
    and out: "out = JObj t \<or>
            (\<exists>s text. map_of t ''verification_result'' = Some (JObj s) \<and>
               out = JObj (AList.update ''verification_result''
                       (JObj (AList.update ''rejection_reason'' (JStr (redactText text)) s)) t))"
    by blast
  have vr: "''verification_result'' \<in> set sanitized_names"
    by code_simp
  from out t vr obtain okvs where okvs: "out = JObj okvs" "fst ` set okvs \<subseteq> set sanitized_names"
    by (auto simp: AList.dom_update)
  from okvs(2) names_not_pii have k1: "''cleaner_id'' \<notin> fst ` set okvs"
    and k2: "''proof_of_presence'' \<notin> fst ` set okvs"
    by (auto simp: list_all_iff)
  from no_pii_path [OF okvs(2)] have k3: "set (getAllPaths okvs '''') \<inter> set PII_FIELDS_cleaningLog = {}"
    by blast
  have k4: "set (getAllPaths okvs '''') \<subseteq>
      set AI_SAFE_FIELDS_cleaningLog \<union> {''proof_of_quality'', ''verification_result''}"
    if "cleaning_log_shaped (JObj kvs)"
    using sanitize_shape [OF that run] shape_paths_listed okvs(1) by simp
  from okvs(1) k1 k2 k3 k4 show "\<exists>okvs. out = JObj okvs \<and>
         ''cleaner_id'' \<notin> fst ` set okvs \<and> ''proof_of_presence'' \<notin> fst ` set okvs \<and>
         set (getAllPaths okvs '''') \<inter> set PII_FIELDS_cleaningLog = {} \<and>
         (cleaning_log_shaped (JObj kvs) \<longrightarrow>
            set (getAllPaths okvs '''') \<subseteq>
              set AI_SAFE_FIELDS_cleaningLog \<union> {''proof_of_quality'', ''verification_result''})"
    by blast
next
  assume "omitPaths (JObj kvs) PII_FIELDS_cleaningLog = omitPaths (JObj kvs') PII_FIELDS_cleaningLog"
  then show "sanitizeLogForAI redactText (JObj kvs) = sanitizeLogForAI redactText (JObj kvs')"
    by (intro sanitize_cong omit_equal)
qed

theorem sanitized_log_has_no_pii_witness:
  "cleaning_log_shaped (JObj sample_fields) \<and>
   sanitizeLogForAI redact_all (JObj sample_fields) =
     Inr (JObj
       [(''id'', JStr ''log_1''), (''checkpoint_id'', JStr ''cp_001''),
        (''building_id'', JStr ''bld_001''), (''created_at'', JStr ''2025-12-28T08:00:00Z''),
        (''proof_of_quality'', JObj [(''overall_score'', JNum (19 / 20)),
           (''detected_objects'', JArr [JStr ''mop'']), (''passed_validation'', JBool True)]),
        (''verification_result'', JObj [(''status'', JStr ''rejected''),
           (''rejection_reason'', JStr ''[REDACTED]'')])]) \<and>
   sample_fields \<noteq> other_fields \<and>
   omitPaths (JObj sample_fields) PII_FIELDS_cleaningLog =
     omitPaths (JObj other_fields) PII_FIELDS_cleaningLog \<and>
   sanitizeLogForAI redact_all (JObj sample_fields) = sanitizeLogForAI redact_all (JObj other_fields)"
proof -
  have h1: "cleaning_log_shaped (JObj sample_fields)" by code_simp
  have h2: "sanitizeLogForAI redact_all (JObj sample_fields) =
     Inr (JObj
       [(''id'', JStr ''log_1''), (''checkpoint_id'', JStr ''cp_001''),
        (''building_id'', JStr ''bld_001''), (''created_at'', JStr ''2025-12-28T08:00:00Z''),
        (''proof_of_quality'', JObj [(''overall_score'', JNum (19 / 20)),
           (''detected_objects'', JArr [JStr ''mop'']), (''passed_validation'', JBool True)]),
        (''verification_result'', JObj [(''status'', JStr ''rejected''),
           (''rejection_reason'', JStr ''[REDACTED]'')])])" by code_simp
  have h3: "sample_fields \<noteq> other_fields" by code_simp
  have h4: "omitPaths (JObj sample_fields) PII_FIELDS_cleaningLog =
     omitPaths (JObj other_fields) PII_FIELDS_cleaningLog" by code_simp
  from sanitized_log_has_no_pii [of redact_all sample_fields _ other_fields] h4
  have "sanitizeLogForAI redact_all (JObj sample_fields) = sanitizeLogForAI redact_all (JObj other_fields)"
    by blast
  with h1 h2 h3 h4 show ?thesis by blast
qed

end
